theory Spec2Isabelle
  imports Main "HOL-Library.AList" "HOL-Library.Word"
begin

section \<open>Python values\<close>

text \<open>
  The values that reach the validator are the ones a JSON/YAML loader produces:
  \<open>None\<close>, booleans, integers, floats, complex numbers, strings, lists and
  dictionaries with string keys.  A float is its IEEE 754 binary64 bit pattern and a
  complex number a pair of floats; the validator only ever inspects the \<^emph>\<open>type
  name\<close> of either, never the payload.  A dictionary is an association list in
  insertion order (the order Python iterates it in); the representation of a nested
  dictionary is a type parameter, so that the same definitions serve trees held by
  value and dictionaries held in a store of mutable objects.
\<close>

datatype pyfloat = Float64 (bits: "64 word")
datatype pycomplex = Complex (re_part: pyfloat) (im_part: pyfloat)

datatype 'd val =
    VNone
  | VBool bool
  | VInt int
  | VFloat pyfloat
  | VComplex pycomplex
  | VStr string
  | VList "'d val list"
  | VDict 'd

datatype pydict = PyDict (items: "(string \<times> pydict val) list")

type_synonym pyval = "pydict val"

text \<open>\<open>type(value).__name__\<close>\<close>

fun type_name :: "'d val \<Rightarrow> string" where
  "type_name VNone = ''NoneType''"
| "type_name (VBool b) = ''bool''"
| "type_name (VInt i) = ''int''"
| "type_name (VFloat f) = ''float''"
| "type_name (VComplex c) = ''complex''"
| "type_name (VStr s) = ''str''"
| "type_name (VList xs) = ''list''"
| "type_name (VDict d) = ''dict''"

section \<open>Exceptions\<close>

text \<open>
  Every exception the modelled code can raise is a value.  The messages of
  \<open>InputError\<close> and \<open>TemplateError\<close> are built with \<open>str.format\<close>; the model keeps
  the format arguments (what the message names) instead of the rendered text:
  \<^item> \<open>ValueError\<close>: the only one raised is
     \<open>'could not recognize expected_type: {}'.format(expected_type)\<close>
  \<^item> \<open>UnexpectedKeywords S\<close>: \<open>'found unexpected keyword(s): {}'.format(S)\<close>
  \<^item> \<open>UnexpectedSections S\<close>: \<open>'found unexpected section(s): {}'.format(S)\<close>
  \<^item> \<open>MustBeSet S\<close>: \<open>'the following keyword(s) must be set: {}'.format(S)\<close>
  \<^item> \<open>IncorrectType k t\<close>:
     \<open>"incorrect type for keyword: {0}, expected '{1}' type".format(k, t)\<close>
  \<^item> \<open>PredicateFailed p k\<close>: \<open>'predicate {} failed in keyword {}'.format(p, k)\<close>
  \<^item> \<open>KeywordsNoDoc ks\<close>: \<open>'keyword(s) without any documentation: {}'.format(ks)\<close>
  \<^item> \<open>PredicateSyntax p k\<close>:
     \<open>'syntax error in predicate {} in keyword {}'.format(p, k)\<close>
\<close>

datatype input_msg =
    UnexpectedKeywords "string set"
  | UnexpectedSections "string set"
  | MustBeSet "string set"
  | IncorrectType string string
  | PredicateFailed string string

datatype template_msg =
    KeywordsNoDoc "string list"
  | PredicateSyntax string string

datatype error =
    KeyError string
  | TypeError
  | AttributeError
  | IndexError
  | ValueError
  | SyntaxError
  | NameError
  | InputError input_msg
  | TemplateError template_msg

section \<open>The type system\<close>

text \<open>\<open>allowed_basic_types\<close>, \<open>allowed_list_types\<close>, \<open>allowed_types\<close>
  (the same three lists in \<open>validate.py\<close> and \<open>types.py\<close>).\<close>

definition allowed_scalar_types :: "string list" where
  "allowed_scalar_types = [''str'', ''int'', ''float'', ''complex'', ''bool'']"

text \<open>\<open>'List[{}]'.format(t)\<close>\<close>

definition list_tag :: "string \<Rightarrow> string" where
  "list_tag t = ''List['' @ t @ '']''"

definition allowed_list_types :: "string list" where
  "allowed_list_types = map list_tag allowed_scalar_types"

definition allowed_types :: "string list" where
  "allowed_types = allowed_scalar_types @ allowed_list_types"

text \<open>
  The regular expression \<open>^List\[(\w+)\]$\<close>: the text \<open>List[\<close>, a non-empty run of
  word characters (the group), \<open>]\<close>, and then the end of the string or a final
  newline.  It returns the group, or \<open>None\<close> when the string does not match.  Only
  strings of \<open>allowed_types\<close> ever reach it, so word characters are modelled on ASCII.
\<close>

definition is_word_char :: "char \<Rightarrow> bool" where
  "is_word_char c \<longleftrightarrow>
     (let n = of_char c :: nat in
      (48 \<le> n \<and> n \<le> 57) \<or> (65 \<le> n \<and> n \<le> 90) \<or> (97 \<le> n \<and> n \<le> 122) \<or> n = 95)"

definition list_element_type :: "string \<Rightarrow> string option" where
  "list_element_type s =
     (if take 5 s = ''List[''
      then (let r = drop 5 s; w = takeWhile is_word_char r; rest = dropWhile is_word_char r
            in if w \<noteq> [] \<and> (rest = '']'' \<or> rest = [CHR '']'', CHR 0x0A]) then Some w else None)
      else None)"

text \<open>\<open>type_matches\<close> of \<open>validate.py\<close>.\<close>

definition type_matches :: "'d val \<Rightarrow> string \<Rightarrow> error + bool" where
  "type_matches v expected_type =
     (if expected_type \<notin> set allowed_types then Inl ValueError
      else (case list_element_type expected_type of
              Some t \<Rightarrow>
                (case v of
                   VList xs \<Rightarrow> Inr (list_all (\<lambda>element. type_name element = t) xs)
                 | _ \<Rightarrow> Inr False)
            | None \<Rightarrow> Inr (type_name v = expected_type)))"

text \<open>\<open>_type_check_scalar\<close>, \<open>_type_check_list\<close> and \<open>type_matches\<close> of \<open>types.py\<close>.\<close>

definition type_check_scalar :: "'d val \<Rightarrow> string \<Rightarrow> bool" where
  "type_check_scalar v expected_type \<longleftrightarrow> type_name v = expected_type"

definition type_check_list :: "'d val \<Rightarrow> string \<Rightarrow> bool" where
  "type_check_list v expected_type \<longleftrightarrow>
     (case v of
        VList xs \<Rightarrow> list_all (\<lambda>x. type_check_scalar x expected_type) xs
      | _ \<Rightarrow> False)"

definition type_matches_t :: "'d val \<Rightarrow> string \<Rightarrow> error + bool" where
  "type_matches_t v expected_type =
     (if expected_type \<notin> set allowed_types then Inl ValueError
      else (case list_element_type expected_type of
              Some t \<Rightarrow> Inr (type_check_list v t)
            | None \<Rightarrow> Inr (type_check_scalar v expected_type)))"


section \<open>Templates\<close>

text \<open>
  A template node and a keyword specification are dictionaries of \<open>JsonDict\<close> with a
  fixed vocabulary of keys.  The code tests the presence of a key (\<open>'default' in x\<close>)
  or subscripts it and lets \<open>KeyError\<close> escape, so every key is optional in the model:
  \<open>None\<close> is an absent key.  Names, type tags, documentation and predicates are
  strings, as the annotations and the use of \<open>str.strip\<close> and \<open>eval\<close> require.
\<close>

datatype 'd kwspec = KwSpec
  (kw_keyword: "string option")
  (kw_type: "string option")
  (kw_default: "'d val option")
  (kw_documentation: "string option")
  (kw_predicates: "string list option")

datatype 'd tnode = TNode
  (t_section: "string option")
  (t_keywords: "'d kwspec list option")
  (t_sections: "'d tnode list option")

section \<open>The node validator of \<open>validate.py\<close>\<close>

subsection \<open>Helpers for Python idioms\<close>

text \<open>The list under an optional key, empty when the key is absent.\<close>

definition the_list :: "'a list option \<Rightarrow> 'a list" where
  "the_list xo = (case xo of None \<Rightarrow> [] | Some xs \<Rightarrow> xs)"


text \<open>\<open>[x[key] for x in xs]\<close>: the first element without the key raises \<open>KeyError\<close>.\<close>

fun subscripts :: "('a \<Rightarrow> string option) \<Rightarrow> string \<Rightarrow> 'a list \<Rightarrow> error + string list" where
  "subscripts f key [] = Inr []"
| "subscripts f key (x # xs) =
     (case f x of
        None \<Rightarrow> Inl (KeyError key)
      | Some n \<Rightarrow> (case subscripts f key xs of Inl e \<Rightarrow> Inl e | Inr ns \<Rightarrow> Inr (n # ns)))"

text \<open>
  \<open>list(filter(lambda x: x[key] == name, xs))[0]\<close>: \<open>list\<close> forces the filter over
  all of \<open>xs\<close>, so an element without the key raises \<open>KeyError\<close>; an empty result
  raises \<open>IndexError\<close>.
\<close>

definition first_named :: "('a \<Rightarrow> string option) \<Rightarrow> string \<Rightarrow> string \<Rightarrow> 'a list \<Rightarrow> error + 'a" where
  "first_named f key name xs =
     (case subscripts f key xs of
        Inl e \<Rightarrow> Inl e
      | Inr _ \<Rightarrow> (case filter (\<lambda>x. f x = Some name) xs of [] \<Rightarrow> Inl IndexError | x # _ \<Rightarrow> Inr x))"

text \<open>
  \<open>s.strip() == ''\<close>: every character of \<open>s\<close> is white space.  A character of the
  model is a code point below 256; the white space there is 9 to 13, 28 to 32, the
  next-line character 133 and the no-break space 160.
\<close>

definition is_space :: "char \<Rightarrow> bool" where
  "is_space c \<longleftrightarrow>
     (let n = of_char c :: nat
      in (9 \<le> n \<and> n \<le> 13) \<or> (28 \<le> n \<and> n \<le> 32) \<or> n = 133 \<or> n = 160)"

definition no_documentation :: "'d kwspec \<Rightarrow> bool" where
  "no_documentation x \<longleftrightarrow>
     (case kw_documentation x of None \<Rightarrow> True | Some doc \<Rightarrow> list_all is_space doc)"

text \<open>
  \<open>input_sections\<close> and \<open>input_keywords\<close> of a dictionary: the keys whose value is a
  dictionary, and the others, both in the dictionary's order.
\<close>

definition input_sections_of :: "(string \<times> 'd val) list \<Rightarrow> string list" where
  "input_sections_of d =
     filter (\<lambda>x. case map_of d x of Some v \<Rightarrow> type_name v = ''dict'' | None \<Rightarrow> False) (map fst d)"

definition input_keywords_of :: "(string \<times> 'd val) list \<Rightarrow> string list" where
  "input_keywords_of d = filter (\<lambda>x. x \<notin> set (input_sections_of d)) (map fst d)"

text \<open>
  The same two lines on a value that is not a dictionary (the value found under a
  section name need not be one).  Numbers, booleans and \<open>None\<close> are not iterable.  An
  empty string iterates to nothing and then has no \<open>keys\<close>; a non-empty one is
  subscripted with its first character.  A list is subscripted with each of its own
  elements in turn (an integer or boolean element is an index, negative ones counting
  from the end), and has no \<open>keys\<close> either.
\<close>

fun list_getitem :: "'d val list \<Rightarrow> 'd val \<Rightarrow> error + 'd val" where
  "list_getitem xs (VInt i) =
     (if - int (length xs) \<le> i \<and> i < int (length xs)
      then Inr (xs ! nat (i mod int (length xs)))
      else Inl IndexError)"
| "list_getitem xs (VBool b) =
     (if (if b then 1 else 0) < length xs then Inr (xs ! (if b then 1 else 0)) else Inl IndexError)"
| "list_getitem xs _ = Inl TypeError"

fun first_error :: "(error + 'a) list \<Rightarrow> error option" where
  "first_error [] = None"
| "first_error (Inl e # rs) = Some e"
| "first_error (Inr _ # rs) = first_error rs"

definition non_dict_error :: "'d val \<Rightarrow> error" where
  "non_dict_error v =
     (case v of
        VList xs \<Rightarrow> (case first_error (map (list_getitem xs) xs) of
                       Some e \<Rightarrow> e | None \<Rightarrow> AttributeError)
      | VStr s \<Rightarrow> (if s = [] then AttributeError else TypeError)
      | _ \<Rightarrow> TypeError)"

subsection \<open>The checks of one node\<close>

text \<open>The loop \<open>for keyword in input_keywords\<close> that verifies the type of each value.\<close>

fun check_types :: "(string \<times> 'd val) list \<Rightarrow> 'd kwspec list \<Rightarrow> string list \<Rightarrow> error + unit" where
  "check_types d kws [] = Inr ()"
| "check_types d kws (keyword # rest) =
     (case first_named kw_keyword ''keyword'' keyword kws of
        Inl e \<Rightarrow> Inl e
      | Inr template_keyword \<Rightarrow>
          (case kw_type template_keyword of
             None \<Rightarrow> Inl (KeyError ''type'')
           | Some ty \<Rightarrow>
               (case map_of d keyword of
                  None \<Rightarrow> Inl (KeyError keyword)
                | Some v \<Rightarrow>
                    (case type_matches v ty of
                       Inl e \<Rightarrow> Inl e
                     | Inr b \<Rightarrow>
                         if \<not> b then Inl (InputError (IncorrectType keyword ty))
                         else check_types d kws rest))))"

text \<open>
  \<open>validate_node\<close> up to the point where it changes \<open>input_dict\<close> is done in
  three stages, in the order of the source.  The first reads the template only:
  \<open>template_sections\<close>, \<open>template_keywords\<close>, and the stop at a keyword without
  documentation (\<open>template_dict['keywords']\<close> is subscripted there whether or not the
  key is present).
\<close>

definition template_lists :: "'d tnode \<Rightarrow> error + string list \<times> string list \<times> 'd kwspec list" where
  "template_lists template_dict =
     (case (case t_sections template_dict of
              None \<Rightarrow> Inr []
            | Some secs \<Rightarrow> subscripts t_section ''section'' secs) of
        Inl e \<Rightarrow> Inl e
      | Inr template_sections \<Rightarrow>
      (case (case t_keywords template_dict of
               None \<Rightarrow> Inr []
             | Some kws \<Rightarrow> subscripts kw_keyword ''keyword'' kws) of
         Inl e \<Rightarrow> Inl e
       | Inr template_keywords \<Rightarrow>
       (case t_keywords template_dict of
          None \<Rightarrow> Inl (KeyError ''keywords'')
        | Some kws \<Rightarrow>
        (case subscripts kw_keyword ''keyword'' (filter no_documentation kws) of
           Inl e \<Rightarrow> Inl e
         | Inr keywords_no_doc \<Rightarrow>
             if length keywords_no_doc > 0
             then Inl (TemplateError (KeywordsNoDoc keywords_no_doc))
             else Inr (template_sections, template_keywords, kws)))))"

text \<open>
  The second stage compares the keys of \<open>input_dict\<close> (its items are \<open>d\<close>) with the
  template: unexpected keywords, unexpected sections, keywords without a default that
  are not set.  On success it returns \<open>input_keywords\<close>, \<open>template_keywords\<close> and
  \<open>template_sections\<close>.
\<close>

definition check_shape ::
  "(string \<times> 'd val) list \<Rightarrow> 'd tnode \<Rightarrow> error + string list \<times> string list \<times> string list" where
  "check_shape d template_dict =
     (let input_sections = input_sections_of d;
          input_keywords = input_keywords_of d
      in
      case template_lists template_dict of
        Inl e \<Rightarrow> Inl e
      | Inr (template_sections, template_keywords, kws) \<Rightarrow>
          if set input_keywords - set template_keywords \<noteq> {}
          then Inl (InputError (UnexpectedKeywords (set input_keywords - set template_keywords)))
          else if set input_sections - set template_sections \<noteq> {}
          then Inl (InputError (UnexpectedSections (set input_sections - set template_sections)))
          else
          (case subscripts kw_keyword ''keyword'' (filter (\<lambda>x. kw_default x = None) kws) of
             Inl e \<Rightarrow> Inl e
           | Inr keywords_no_default \<Rightarrow>
               if set keywords_no_default - set input_keywords \<noteq> {}
               then Inl (InputError (MustBeSet (set keywords_no_default - set input_keywords)))
               else Inr (input_keywords, template_keywords, template_sections)))"

text \<open>The third stage is the type loop over \<open>input_keywords\<close>.\<close>

definition check_dict ::
  "(string \<times> 'd val) list \<Rightarrow> 'd tnode \<Rightarrow> error + string list \<times> string list \<times> string list" where
  "check_dict d template_dict =
     (case check_shape d template_dict of
        Inl e \<Rightarrow> Inl e
      | Inr (input_keywords, template_keywords, template_sections) \<Rightarrow>
          (case check_types d (the_list (t_keywords template_dict)) input_keywords of
             Inl e \<Rightarrow> Inl e
           | Inr _ \<Rightarrow> Inr (input_keywords, template_keywords, template_sections)))"

subsection \<open>Filling in the defaults\<close>

text \<open>
  The loop \<open>for keyword in set(template_keywords).difference(set(input_keywords))\<close>.
  Python iterates a set in an order of its own; the model takes the order of the
  template.  The order only decides where the new keys are inserted.  The function
  returns the dictionary as the loop left it, also when it raises.
\<close>

definition missing_keywords :: "string list \<Rightarrow> string list \<Rightarrow> string list" where
  "missing_keywords template_keywords input_keywords =
     remdups (filter (\<lambda>k. k \<notin> set input_keywords) template_keywords)"

fun fill_defaults ::
  "'d kwspec list \<Rightarrow> string list \<Rightarrow> (string \<times> 'd val) list
     \<Rightarrow> (error + unit) \<times> (string \<times> 'd val) list" where
  "fill_defaults kws [] d = (Inr (), d)"
| "fill_defaults kws (keyword # rest) d =
     (case first_named kw_keyword ''keyword'' keyword kws of
        Inl e \<Rightarrow> (Inl e, d)
      | Inr template_keyword \<Rightarrow>
          (case kw_default template_keyword of
             None \<Rightarrow> (Inl (KeyError ''default''), d)
           | Some dflt \<Rightarrow> fill_defaults kws rest (AList.update keyword dflt d)))"


subsection \<open>\<open>validate_node\<close> on trees held by value\<close>

text \<open>
  \<open>validate_node input_dict template_dict\<close> with the input tree as a value: the
  result is the dictionary \<open>input_dict\<close> has become when the function returns.
  \<open>validate_sections\<close> is the final loop \<open>for section in template_sections\<close> over
  the current items \<open>d\<close> of \<open>input_dict\<close>; \<open>secs\<close> is \<open>template_dict['sections']\<close>.
\<close>

function validate_node :: "pyval \<Rightarrow> pydict tnode \<Rightarrow> error + pyval"
  and validate_sections ::
    "pydict tnode list \<Rightarrow> string list \<Rightarrow> (string \<times> pyval) list \<Rightarrow> error + (string \<times> pyval) list"
where
  "validate_node input_dict template_dict =
     (case input_dict of
        VDict dict \<Rightarrow>
          (case check_dict (items dict) template_dict of
             Inl e \<Rightarrow> Inl e
           | Inr (input_keywords, template_keywords, template_sections) \<Rightarrow>
               (case fill_defaults (the_list (t_keywords template_dict))
                       (missing_keywords template_keywords input_keywords) (items dict) of
                  (Inl e, d1) \<Rightarrow> Inl e
                | (Inr _, d1) \<Rightarrow>
                    (case validate_sections (the_list (t_sections template_dict))
                            template_sections d1 of
                       Inl e \<Rightarrow> Inl e
                     | Inr d2 \<Rightarrow> Inr (VDict (PyDict d2)))))
      | _ \<Rightarrow> Inl (non_dict_error input_dict))"
| "validate_sections secs [] d = Inr d"
| "validate_sections secs (section # rest) d =
     (case map_of d section of
        None \<Rightarrow> Inl (KeyError section)
      | Some input_section \<Rightarrow>
          (case first_named t_section ''section'' section secs of
             Inl e \<Rightarrow> Inl e
           | Inr template_section \<Rightarrow>
               (case validate_node input_section template_section of
                  Inl e \<Rightarrow> Inl e
                | Inr r \<Rightarrow> validate_sections secs rest (AList.update section r d))))"
  by pat_completeness auto
termination
proof (relation "inv_image (less_than <*lex*> less_than)
    (\<lambda>x. case x of
            Inl (v, t) \<Rightarrow> (size t, 0)
          | Inr (secs, names, d) \<Rightarrow> (size_list size secs, length names))", goal_cases)
  case 1
  show ?case by (intro wf_inv_image wf_lex_prod wf_less_than)
next
  case (2 input_dict template_dict)
  show ?case
    by (cases template_dict) (auto simp: the_list_def split: option.splits)
next
  case (3 secs name rest d input_section template_section)
  then have "template_section \<in> set secs"
    by (auto simp: first_named_def split: sum.splits list.splits dest: filter_eq_ConsD)
  then have "size template_section < size_list size secs"
    by (induction secs) auto
  then show ?case by simp
next
  case 4
  then show ?case by simp
qed

subsection \<open>\<open>validate_node\<close> on dictionaries held in a store\<close>

text \<open>
  Python dictionaries are mutable objects and \<open>validate_node\<close> assigns into
  \<open>input_dict\<close>.  Here a dictionary value is the address of an object, and the store
  maps each address to the items of the object there.  The function takes the store
  and returns it as the call leaves it, together with the returned value or the
  exception.  Lists are never assigned into by this code and stay values.
\<close>

type_synonym addr = nat
type_synonym hval = "addr val"
type_synonym store = "addr \<Rightarrow> (string \<times> hval) list"

text \<open>The store in which every dictionary is empty.\<close>

definition empty_store :: store where
  "empty_store = (\<lambda>a. [])"

function validate_node_st :: "hval \<Rightarrow> addr tnode \<Rightarrow> store \<Rightarrow> (error + hval) \<times> store"
  and validate_sections_st ::
    "addr \<Rightarrow> addr tnode list \<Rightarrow> string list \<Rightarrow> store \<Rightarrow> (error + unit) \<times> store"
where
  "validate_node_st input_dict template_dict h =
     (case input_dict of
        VDict a \<Rightarrow>
          (case check_dict (h a) template_dict of
             Inl e \<Rightarrow> (Inl e, h)
           | Inr (input_keywords, template_keywords, template_sections) \<Rightarrow>
               (case fill_defaults (the_list (t_keywords template_dict))
                       (missing_keywords template_keywords input_keywords) (h a) of
                  (Inl e, d1) \<Rightarrow> (Inl e, h(a := d1))
                | (Inr _, d1) \<Rightarrow>
                    (case validate_sections_st a (the_list (t_sections template_dict))
                            template_sections (h(a := d1)) of
                       (Inl e, h') \<Rightarrow> (Inl e, h')
                     | (Inr _, h') \<Rightarrow> (Inr input_dict, h'))))
      | _ \<Rightarrow> (Inl (non_dict_error input_dict), h))"
| "validate_sections_st a secs [] h = (Inr (), h)"
| "validate_sections_st a secs (section # rest) h =
     (case map_of (h a) section of
        None \<Rightarrow> (Inl (KeyError section), h)
      | Some input_section \<Rightarrow>
          (case first_named t_section ''section'' section secs of
             Inl e \<Rightarrow> (Inl e, h)
           | Inr template_section \<Rightarrow>
               (case validate_node_st input_section template_section h of
                  (Inl e, h') \<Rightarrow> (Inl e, h')
                | (Inr r, h') \<Rightarrow>
                    validate_sections_st a secs rest (h'(a := AList.update section r (h' a))))))"
  by pat_completeness auto
termination
proof (relation "inv_image (less_than <*lex*> less_than)
    (\<lambda>x. case x of
            Inl (v, t, h) \<Rightarrow> (size t, 0)
          | Inr (a, secs, names, h) \<Rightarrow> (size_list size secs, length names))", goal_cases)
  case 1
  show ?case by (intro wf_inv_image wf_lex_prod wf_less_than)
next
  case (2 input_dict template_dict h)
  show ?case
    by (cases template_dict) (auto simp: the_list_def split: option.splits)
next
  case (3 a secs name rest h input_section template_section)
  then have "template_section \<in> set secs"
    by (auto simp: first_named_def split: sum.splits list.splits dest: filter_eq_ConsD)
  then have "size template_section < size_list size secs"
    by (induction secs) auto
  then show ?case by simp
next
  case 4
  then show ?case by simp
qed


section \<open>The predicate checker of \<open>validate.py\<close>\<close>

text \<open>
  \<open>check_predicates_node\<close> hands each predicate text to Python's \<open>eval\<close>, which
  runs it in the frame of the call.  The interpreter is a parameter of the model:
  \<open>ev predicate input_dict input_dict_node template_dict_node keyword value\<close> is
  the exception \<open>eval(predicate)\<close> raises with these local variables, or the truth
  value of its result \<open>r\<close> (the code only tests \<open>not r\<close>).
\<close>

type_synonym evaluator =
  "string \<Rightarrow> pyval \<Rightarrow> pyval \<Rightarrow> pydict tnode \<Rightarrow> string \<Rightarrow> pyval \<Rightarrow> error + bool"

text \<open>The loop \<open>for predicate in template_keyword['predicates']\<close>; \<open>evl\<close> is
  \<open>eval\<close> in the frame of the current keyword.\<close>

fun check_predicate_list :: "(string \<Rightarrow> error + bool) \<Rightarrow> string \<Rightarrow> string list \<Rightarrow> error + unit" where
  "check_predicate_list evl keyword [] = Inr ()"
| "check_predicate_list evl keyword (predicate # rest) =
     (case evl predicate of
        Inl e \<Rightarrow>
          if e = SyntaxError then Inl (TemplateError (PredicateSyntax predicate keyword))
          else Inl e
      | Inr r \<Rightarrow>
          if \<not> r then Inl (InputError (PredicateFailed predicate keyword))
          else check_predicate_list evl keyword rest)"

text \<open>The loop \<open>for keyword in input_keywords\<close>; \<open>d\<close> are the items of
  \<open>input_dict_node\<close>.\<close>

fun check_keyword_predicates ::
  "evaluator \<Rightarrow> pyval \<Rightarrow> pyval \<Rightarrow> pydict tnode \<Rightarrow> (string \<times> pyval) list \<Rightarrow> string list
     \<Rightarrow> error + unit" where
  "check_keyword_predicates ev input_dict input_dict_node template_dict_node d [] = Inr ()"
| "check_keyword_predicates ev input_dict input_dict_node template_dict_node d (keyword # rest) =
     (case t_keywords template_dict_node of
        None \<Rightarrow> Inl (KeyError ''keywords'')
      | Some kws \<Rightarrow>
          (case first_named kw_keyword ''keyword'' keyword kws of
             Inl e \<Rightarrow> Inl e
           | Inr template_keyword \<Rightarrow>
               (case map_of d keyword of
                  None \<Rightarrow> Inl (KeyError keyword)
                | Some v \<Rightarrow>
                    (case (case kw_predicates template_keyword of
                             None \<Rightarrow> Inr ()
                           | Some predicates \<Rightarrow>
                               check_predicate_list
                                 (\<lambda>predicate. ev predicate input_dict input_dict_node
                                                template_dict_node keyword v)
                                 keyword predicates) of
                       Inl e \<Rightarrow> Inl e
                     | Inr _ \<Rightarrow>
                         check_keyword_predicates ev input_dict input_dict_node
                           template_dict_node d rest))))"

function check_predicates_node :: "evaluator \<Rightarrow> pyval \<Rightarrow> pyval \<Rightarrow> pydict tnode \<Rightarrow> error + unit"
  and check_predicates_sections ::
    "evaluator \<Rightarrow> pyval \<Rightarrow> (string \<times> pyval) list \<Rightarrow> pydict tnode list \<Rightarrow> string list
       \<Rightarrow> error + unit"
where
  "check_predicates_node ev input_dict input_dict_node template_dict_node =
     (case input_dict_node of
        VDict dict \<Rightarrow>
          (case (case t_sections template_dict_node of
                   None \<Rightarrow> Inr []
                 | Some secs \<Rightarrow> subscripts t_section ''section'' secs) of
             Inl e \<Rightarrow> Inl e
           | Inr template_sections \<Rightarrow>
               (case check_keyword_predicates ev input_dict input_dict_node template_dict_node
                       (items dict) (input_keywords_of (items dict)) of
                  Inl e \<Rightarrow> Inl e
                | Inr _ \<Rightarrow>
                    check_predicates_sections ev input_dict (items dict)
                      (the_list (t_sections template_dict_node)) template_sections))
      | _ \<Rightarrow> Inl (non_dict_error input_dict_node))"
| "check_predicates_sections ev input_dict d secs [] = Inr ()"
| "check_predicates_sections ev input_dict d secs (section # rest) =
     (case map_of d section of
        None \<Rightarrow> Inl (KeyError section)
      | Some input_section \<Rightarrow>
          (case first_named t_section ''section'' section secs of
             Inl e \<Rightarrow> Inl e
           | Inr template_section \<Rightarrow>
               (case check_predicates_node ev input_dict input_section template_section of
                  Inl e \<Rightarrow> Inl e
                | Inr _ \<Rightarrow> check_predicates_sections ev input_dict d secs rest)))"
  by pat_completeness auto
termination
proof (relation "inv_image (less_than <*lex*> less_than)
    (\<lambda>x. case x of
            Inl (ev, i, v, t) \<Rightarrow> (size t, 0)
          | Inr (ev, i, d, secs, names) \<Rightarrow> (size_list size secs, length names))", goal_cases)
  case 1
  show ?case by (intro wf_inv_image wf_lex_prod wf_less_than)
next
  case (2 ev input_dict input_dict_node template_dict_node)
  show ?case
    by (cases template_dict_node) (auto simp: the_list_def split: option.splits)
next
  case (3 ev input_dict d secs name rest input_section template_section)
  then have "template_section \<in> set secs"
    by (auto simp: first_named_def split: sum.splits list.splits dest: filter_eq_ConsD)
  then have "size template_section < size_list size secs"
    by (induction secs) auto
  then show ?case by simp
next
  case 4
  then show ?case by simp
qed

section \<open>Type fixation in \<open>types.py\<close>\<close>

subsection \<open>The constructors\<close>

text \<open>
  The five built-in constructors that \<open>type_fixers\<close> holds.  Their equations cover
  the arguments whose result needs no float arithmetic, no parsing and no \<open>repr\<close>
  of a float or a container; the model says nothing about the other arguments.
\<close>

datatype builtin = B_bool | B_complex | B_float | B_int | B_str

text \<open>\<open>str(i)\<close> of an integer: its decimal digits, with a minus sign when negative.\<close>

fun digits :: "nat \<Rightarrow> string" where
  "digits n =
     (if n < 10 then [''0123456789'' ! n]
      else digits (n div 10) @ [''0123456789'' ! (n mod 10)])"

definition str_of_int :: "int \<Rightarrow> string" where
  "str_of_int i = (if i < 0 then CHR ''-'' # digits (nat (- i)) else digits (nat i))"

fun py_bool :: "pyval \<Rightarrow> error + pyval" where
  "py_bool VNone = Inr (VBool False)"
| "py_bool (VBool b) = Inr (VBool b)"
| "py_bool (VInt i) = Inr (VBool (i \<noteq> 0))"
| "py_bool (VFloat f) = Inr (VBool (bits f \<noteq> 0 \<and> bits f \<noteq> 2 ^ 63))"
| "py_bool (VComplex c) =
     Inr (VBool ((bits (re_part c) \<noteq> 0 \<and> bits (re_part c) \<noteq> 2 ^ 63)
                \<or> (bits (im_part c) \<noteq> 0 \<and> bits (im_part c) \<noteq> 2 ^ 63)))"
| "py_bool (VStr s) = Inr (VBool (s \<noteq> []))"
| "py_bool (VList xs) = Inr (VBool (xs \<noteq> []))"
| "py_bool (VDict d) = Inr (VBool (items d \<noteq> []))"

fun py_int :: "pyval \<Rightarrow> error + pyval" where
  "py_int (VInt i) = Inr (VInt i)"
| "py_int (VBool b) = Inr (VInt (if b then 1 else 0))"
| "py_int VNone = Inl TypeError"
| "py_int (VComplex c) = Inl TypeError"
| "py_int (VList xs) = Inl TypeError"
| "py_int (VDict d) = Inl TypeError"

fun py_str :: "pyval \<Rightarrow> error + pyval" where
  "py_str (VStr s) = Inr (VStr s)"
| "py_str (VInt i) = Inr (VStr (str_of_int i))"
| "py_str (VBool b) = Inr (VStr (if b then ''True'' else ''False''))"
| "py_str VNone = Inr (VStr ''None'')"

fun py_float :: "pyval \<Rightarrow> error + pyval" where
  "py_float (VFloat f) = Inr (VFloat f)"
| "py_float VNone = Inl TypeError"
| "py_float (VComplex c) = Inl TypeError"
| "py_float (VList xs) = Inl TypeError"
| "py_float (VDict d) = Inl TypeError"

fun py_complex :: "pyval \<Rightarrow> error + pyval" where
  "py_complex (VComplex c) = Inr (VComplex c)"
| "py_complex (VFloat f) = Inr (VComplex (Complex f (Float64 0)))"
| "py_complex VNone = Inl TypeError"
| "py_complex (VList xs) = Inl TypeError"
| "py_complex (VDict d) = Inl TypeError"

fun call_builtin :: "builtin \<Rightarrow> pyval \<Rightarrow> error + pyval" where
  "call_builtin B_bool x = py_bool x"
| "call_builtin B_complex x = py_complex x"
| "call_builtin B_float x = py_float x"
| "call_builtin B_int x = py_int x"
| "call_builtin B_str x = py_str x"

text \<open>\<open>list(map(f, x))\<close>: \<open>x\<close> is iterated (a list gives its elements, a string its
  characters, a dictionary its keys) and \<open>f\<close> applied to each item in turn.\<close>

fun map_results :: "('a \<Rightarrow> error + 'b) \<Rightarrow> 'a list \<Rightarrow> error + 'b list" where
  "map_results f [] = Inr []"
| "map_results f (x # xs) =
     (case f x of
        Inl e \<Rightarrow> Inl e
      | Inr y \<Rightarrow> (case map_results f xs of Inl e \<Rightarrow> Inl e | Inr ys \<Rightarrow> Inr (y # ys)))"

definition list_map :: "(pyval \<Rightarrow> error + pyval) \<Rightarrow> pyval \<Rightarrow> error + pyval" where
  "list_map f x =
     (case x of
        VList xs \<Rightarrow> map_sum id VList (map_results f xs)
      | VStr s \<Rightarrow> map_sum id VList (map_results f (map (\<lambda>c. VStr [c]) s))
      | VDict d \<Rightarrow> map_sum id VList (map_results f (map (\<lambda>kv. VStr (fst kv)) (items d)))
      | _ \<Rightarrow> Inl TypeError)"

subsection \<open>The table \<open>type_fixers\<close>\<close>

text \<open>
  The table starts with the five constructors, in this order.  The comprehension
  \<^verbatim>\<open>{"List[{:s}]".format(k): lambda x: list(map(v, x)) for k, v in type_fixers.items()}\<close>
  then makes one function per entry.  Each of these functions refers to the variable
  \<open>v\<close> of the comprehension and reads it when it is called; all of them share that
  one variable, and once the comprehension has run it holds the value of the last
  entry.  So a table entry is either a constructor or the closure over \<open>v\<close>, and
  \<open>comprehension_v\<close> is what \<open>v\<close> holds whenever a closure is called.
\<close>

definition scalar_type_fixers :: "(string \<times> builtin) list" where
  "scalar_type_fixers =
     [(''bool'', B_bool), (''complex'', B_complex), (''float'', B_float), (''int'', B_int),
      (''str'', B_str)]"

datatype fixer = Constructor builtin | MapClosure

definition comprehension_v :: builtin where
  "comprehension_v = snd (last scalar_type_fixers)"

definition tmp :: "(string \<times> fixer) list" where
  "tmp = map (\<lambda>(k, v). (list_tag k, MapClosure)) scalar_type_fixers"

definition type_fixers :: "(string \<times> fixer) list" where
  "type_fixers = map (\<lambda>(k, v). (k, Constructor v)) scalar_type_fixers @ tmp"

fun call_fixer :: "fixer \<Rightarrow> pyval \<Rightarrow> error + pyval" where
  "call_fixer (Constructor b) x = call_builtin b x"
| "call_fixer MapClosure x = list_map (call_builtin comprehension_v) x"

text \<open>\<open>type_fixers[tag](value)\<close>, the coercion of a value to a tag.\<close>

definition coerce :: "pyval \<Rightarrow> string \<Rightarrow> error + pyval" where
  "coerce v tag =
     (case map_of type_fixers tag of
        None \<Rightarrow> Inl (KeyError tag)
      | Some f \<Rightarrow> call_fixer f v)"

subsection \<open>\<open>rec_typenade\<close>\<close>

text \<open>
  Modelled from the spec: the class \<open>Error\<close> of \<open>exceptions.py\<close>, which is not among
  the sources; the specification describes an error record as an (address, message)
  pair, the address being the sequence of keys from the root.  The two messages
  \<open>rec_typenade\<close> formats are kept as their format arguments:
  \<^item> \<open>RequiredNoValue k\<close>: \<open>"Keyword '{0}' is required but has no value".format(k)\<close>
  \<^item> \<open>TypesDoNotMatch a t\<close>:
     \<open>"Actual ({0}) and declared ({1}) types do not match".format(a, t)\<close>
\<close>

datatype typenade_msg = RequiredNoValue string | TypesDoNotMatch string string

type_synonym error_record = "string list \<times> typenade_msg"

text \<open>\<open>x[k]\<close> for a string \<open>k\<close>: only a dictionary can be subscripted with it.\<close>

definition subscript :: "pyval \<Rightarrow> string \<Rightarrow> error + pyval" where
  "subscript x k =
     (case x of
        VDict d \<Rightarrow> (case map_of (items d) k of None \<Rightarrow> Inl (KeyError k) | Some v \<Rightarrow> Inr v)
      | _ \<Rightarrow> Inl TypeError)"

text \<open>
  \<open>rec_typenade(incoming, types, fixate=fixate, address=address)\<close>, by recursion
  over \<open>incoming.items()\<close>; it returns \<open>outgoing\<close> and \<open>errors\<close>.  A \<open>declared\<close>
  that is not a string is not in \<open>allowed_types\<close>, so \<open>type_matches\<close> raises.
\<close>

function rec_typenade ::
  "(string \<times> pyval) list \<Rightarrow> pyval \<Rightarrow> bool \<Rightarrow> string list
     \<Rightarrow> error + (string \<times> pyval) list \<times> error_record list" where
  "rec_typenade [] types fixate address = Inr ([], [])"
| "rec_typenade ((k, v) # rest) types fixate address =
     (case (case v of
              VDict dict \<Rightarrow>
                (case subscript types k of
                   Inl e \<Rightarrow> Inl e
                 | Inr types_k \<Rightarrow>
                     (case rec_typenade (items dict) types_k fixate (address @ [k]) of
                        Inl e \<Rightarrow> Inl e
                      | Inr (out, errs) \<Rightarrow> Inr (VDict (PyDict out), errs)))
            | _ \<Rightarrow>
                (case subscript types k of
                   Inl e \<Rightarrow> Inl e
                 | Inr declared \<Rightarrow>
                     if v = VNone
                     then Inr (VNone, [(address @ [k], RequiredNoValue k)])
                     else
                     (case declared of
                        VStr ty \<Rightarrow>
                          (case type_matches_t v ty of
                             Inl e \<Rightarrow> Inl e
                           | Inr b \<Rightarrow>
                               if b
                               then (if fixate
                                     then map_sum id (\<lambda>r. (r, [])) (coerce v ty)
                                     else Inr (v, []))
                               else Inr (VNone,
                                         [(address @ [k], TypesDoNotMatch (type_name v) ty)]))
                      | _ \<Rightarrow> Inl ValueError))) of
        Inl e \<Rightarrow> Inl e
      | Inr (r, errs) \<Rightarrow>
          (case rec_typenade rest types fixate address of
             Inl e \<Rightarrow> Inl e
           | Inr (out, errs') \<Rightarrow> Inr ((k, r) # out, errs @ errs')))"
  by pat_completeness auto
termination
proof -
  have smaller: "size_list (size_prod (\<lambda>_. 0) (size_val size)) (items x) < Suc (Suc (Suc (size x + n)))"
    for x :: pydict and n
    by (cases x) simp
  show ?thesis
    by (relation "measure (\<lambda>(incoming, types, fixate, address).
          size_list (size_prod (\<lambda>_. 0) (size_val size)) incoming)") (auto simp: smaller)
qed

section \<open>Templates whose defaults have the declared type\<close>

text \<open>The default of keyword \<open>k\<close>: that of the first specification named \<open>k\<close>,
  which is the one \<open>validate_node\<close> looks up.\<close>

definition default_of :: "'d kwspec list \<Rightarrow> string \<Rightarrow> 'd val option" where
  "default_of kws k =
     (case first_named kw_keyword ''keyword'' k kws of
        Inl e \<Rightarrow> None
      | Inr template_keyword \<Rightarrow> kw_default template_keyword)"

text \<open>
  \<open>validate_node\<close> stores a default as it is, without checking it.  A template in
  which every default matches the declared type of its keyword, in every node:
\<close>

definition default_matches :: "'d kwspec \<Rightarrow> bool" where
  "default_matches x \<longleftrightarrow>
     (case kw_default x of
        None \<Rightarrow> True
      | Some v \<Rightarrow> (case kw_type x of None \<Rightarrow> False | Some ty \<Rightarrow> type_matches v ty = Inr True))"

fun defaults_well_typed :: "'d tnode \<Rightarrow> bool" where
  "defaults_well_typed (TNode name kws secs) \<longleftrightarrow>
     list_all default_matches (the_list kws)
     \<and> (case secs of None \<Rightarrow> True | Some ts \<Rightarrow> list_all defaults_well_typed ts)"

section \<open>Input trees in the store\<close>

text \<open>
  The two models of \<open>validate_node\<close> are related through the stores that hold a
  tree.  A value is plain when no dictionary occurs in it; plain values are the same
  in both models.  \<open>tree h v p A\<close> says that in the store \<open>h\<close> the value \<open>v\<close>
  stands for the tree \<open>p\<close> and that the dictionary objects it is made of are exactly
  those at the addresses \<open>A\<close>, each of them used once: the items of a dictionary
  are plain values or dictionaries at addresses apart from one another and from the
  address of the dictionary itself.
\<close>

fun plain :: "'d val \<Rightarrow> bool" where
  "plain (VDict d) \<longleftrightarrow> False"
| "plain (VList xs) \<longleftrightarrow> list_all plain xs"
| "plain v \<longleftrightarrow> True"

definition in_store :: "pyval \<Rightarrow> hval" where
  "in_store = map_val (\<lambda>d. 0)"

definition store_template :: "pydict tnode \<Rightarrow> addr tnode" where
  "store_template = map_tnode (\<lambda>d. 0)"

inductive tree :: "store \<Rightarrow> hval \<Rightarrow> pyval \<Rightarrow> addr set \<Rightarrow> bool"
  and entries :: "store \<Rightarrow> (string \<times> hval) list \<Rightarrow> (string \<times> pyval) list \<Rightarrow> addr set \<Rightarrow> bool"
  for h :: store
where
  tree_plain: "plain p \<Longrightarrow> tree h (in_store p) p {}"
| tree_dict: "entries h (h a) d A \<Longrightarrow> a \<notin> A \<Longrightarrow> tree h (VDict a) (VDict (PyDict d)) (insert a A)"
| entries_nil: "entries h [] [] {}"
| entries_cons:
    "tree h v p A \<Longrightarrow> entries h es ps B \<Longrightarrow> A \<inter> B = {}
       \<Longrightarrow> entries h ((k, v) # es) ((k, p) # ps) (A \<union> B)"

text \<open>A template whose defaults are plain values, in every node.\<close>

fun plain_defaults :: "'d tnode \<Rightarrow> bool" where
  "plain_defaults (TNode name kws secs) \<longleftrightarrow>
     list_all (\<lambda>x. case kw_default x of None \<Rightarrow> True | Some v \<Rightarrow> plain v) (the_list kws)
     \<and> (case secs of None \<Rightarrow> True | Some ts \<Rightarrow> list_all plain_defaults ts)"

text \<open>
  What it means for the store model to do on such a store what the model by value
  does on the tree: the same exception, or the same object returned, holding the
  merged tree in dictionaries that were part of the input, the rest of the store
  untouched.
\<close>

definition simulates :: "store \<Rightarrow> hval \<Rightarrow> pyval \<Rightarrow> addr set \<Rightarrow> pydict tnode \<Rightarrow> bool" where
  "simulates h v p A t \<longleftrightarrow>
     (case validate_node p t of
        Inl e \<Rightarrow> fst (validate_node_st v (store_template t) h) = Inl e
      | Inr p' \<Rightarrow>
          (\<exists>h' A'. validate_node_st v (store_template t) h = (Inr v, h')
             \<and> tree h' v p' A' \<and> A' \<subseteq> A \<and> (\<forall>b. b \<notin> A \<longrightarrow> h' b = h b)))"

section \<open>Properties of the type system\<close>

lemma allowed_types_eq:
  "allowed_types = [''str'', ''int'', ''float'', ''complex'', ''bool'', ''List[str]'',
     ''List[int]'', ''List[float]'', ''List[complex]'', ''List[bool]'']"
  by (simp add: allowed_types_def allowed_list_types_def allowed_scalar_types_def list_tag_def)

lemma list_element_type_scalar:
  "t \<in> set allowed_scalar_types \<Longrightarrow> list_element_type t = None"
  by (auto simp: allowed_scalar_types_def list_element_type_def)

lemma list_element_type_list:
  "t \<in> set allowed_scalar_types \<Longrightarrow> list_element_type (list_tag t) = Some t"
  by (auto simp: allowed_scalar_types_def list_element_type_def is_word_char_def Let_def
      list_tag_def)

lemma list_tag_allowed:
  "t \<in> set allowed_scalar_types \<Longrightarrow> list_tag t \<in> set allowed_types"
  by (auto simp: allowed_types_def allowed_list_types_def)

lemma scalar_tag_allowed:
  "t \<in> set allowed_scalar_types \<Longrightarrow> t \<in> set allowed_types"
  by (auto simp: allowed_types_def allowed_list_types_def)

text \<open>
  C7.  \<open>type_matches\<close> raises exactly when the tag is not one of the ten recognised
  tags (the five scalar tags and their five list variants, all distinct).  The
  exception is the \<open>ValueError\<close> of the first statement, whatever the value is; for a
  recognised tag the function returns a boolean.  This holds for the \<open>type_matches\<close>
  of \<open>validate.py\<close> and for the one of \<open>types.py\<close>.
\<close>

theorem type_matches_raises_iff_unrecognized:
  "length allowed_types = 10 \<and> distinct allowed_types
   \<and> set allowed_types = set allowed_scalar_types \<union> list_tag ` set allowed_scalar_types
   \<and> length allowed_scalar_types = 5
   \<and> (tag \<notin> set allowed_types \<longrightarrow>
        type_matches v tag = Inl ValueError \<and> type_matches_t v tag = Inl ValueError)
   \<and> (tag \<in> set allowed_types \<longrightarrow>
        (\<exists>b. type_matches v tag = Inr b) \<and> (\<exists>b. type_matches_t v tag = Inr b))"
proof -
  have "length allowed_types = 10" "distinct allowed_types"
    by (simp_all add: allowed_types_eq)
  moreover have "set allowed_types = set allowed_scalar_types \<union> list_tag ` set allowed_scalar_types"
    by (simp add: allowed_types_def allowed_list_types_def)
  moreover have "length allowed_scalar_types = 5"
    by (simp add: allowed_scalar_types_def)
  moreover have "\<exists>b. type_matches v tag = Inr b" if "tag \<in> set allowed_types"
    using that by (auto simp: type_matches_def split: option.split val.split)
  moreover have "\<exists>b. type_matches_t v tag = Inr b" if "tag \<in> set allowed_types"
    using that by (simp add: type_matches_t_def split: option.split)
  ultimately show ?thesis
    by (simp add: type_matches_def type_matches_t_def)
qed

theorem type_matches_raises_iff_unrecognized_witness:
  "type_matches (VInt 3 :: pyval) ''List[dict]'' = Inl ValueError
   \<and> type_matches_t (VInt 3 :: pyval) ''List[dict]'' = Inl ValueError
   \<and> ''List[dict]'' \<notin> set allowed_types
   \<and> ''float'' \<in> set allowed_types
   \<and> (\<exists>b. type_matches (VInt 3 :: pyval) ''float'' = Inr b)
   \<and> (\<exists>b. type_matches_t (VInt 3 :: pyval) ''float'' = Inr b)"
proof -
  have a: "''List[dict]'' \<notin> set allowed_types" and b: "''float'' \<in> set allowed_types"
    by (simp_all add: allowed_types_eq)
  show ?thesis
    using a b type_matches_raises_iff_unrecognized [of "''List[dict]''" "VInt 3 :: pyval"]
      type_matches_raises_iff_unrecognized [of "''float''" "VInt 3 :: pyval"]
    by simp
qed

text \<open>
  C8.  For a list tag \<open>List[T]\<close> with \<open>T\<close> one of the five scalar tags,
  \<open>type_matches\<close> returns true exactly when the value is a list and every element
  matches the scalar tag \<open>T\<close>; the empty list matches every list tag.  (The sequences
  of the value model are the lists: the code asks for the type name \<open>list\<close>.)
  This holds for both implementations.
\<close>

theorem type_matches_list_tag:
  assumes "t \<in> set allowed_scalar_types"
  shows "type_matches (v :: 'd val) (list_tag t)
           = Inr (\<exists>xs. v = VList xs \<and> (\<forall>x \<in> set xs. type_matches x t = Inr True))
       \<and> type_matches_t v (list_tag t)
           = Inr (\<exists>xs. v = VList xs \<and> (\<forall>x \<in> set xs. type_matches_t x t = Inr True))
       \<and> type_matches (VList [] :: 'd val) (list_tag t) = Inr True
       \<and> type_matches_t (VList [] :: 'd val) (list_tag t) = Inr True"
proof -
  have sc: "type_matches x t = Inr (type_name x = t)" for x :: "'d val"
    using assms by (simp add: type_matches_def scalar_tag_allowed list_element_type_scalar)
  have sct: "type_matches_t x t = Inr (type_name x = t)" for x :: "'d val"
    using assms by (simp add: type_matches_t_def scalar_tag_allowed list_element_type_scalar
        type_check_scalar_def)
  have l: "type_matches v (list_tag t)
        = Inr (case v of VList xs \<Rightarrow> list_all (\<lambda>e. type_name e = t) xs | _ \<Rightarrow> False)"
    for v :: "'d val"
    using list_tag_allowed[OF assms] list_element_type_list[OF assms]
    by (simp add: type_matches_def split: val.split)
  have lt: "type_matches_t v (list_tag t)
        = Inr (case v of VList xs \<Rightarrow> list_all (\<lambda>e. type_name e = t) xs | _ \<Rightarrow> False)"
    for v :: "'d val"
    using list_tag_allowed[OF assms] list_element_type_list[OF assms]
    by (simp add: type_matches_t_def type_check_list_def type_check_scalar_def split: val.split)
  show ?thesis
    unfolding l lt sc sct by (cases v) (simp_all add: list_all_iff)
qed

theorem type_matches_list_tag_witness:
  "''int'' \<in> set allowed_scalar_types
   \<and> list_tag ''int'' = ''List[int]''
   \<and> type_matches (VList [VInt 1, VInt 2] :: pyval) ''List[int]'' = Inr True
   \<and> type_matches (VList [VInt 1, VStr ''2''] :: pyval) ''List[int]'' = Inr False
   \<and> type_matches_t (VList [VInt 1, VBool True] :: pyval) ''List[int]'' = Inr False
   \<and> type_matches (VInt 1 :: pyval) ''List[int]'' = Inr False"
proof -
  have a: "''int'' \<in> set allowed_scalar_types"
    by (simp add: allowed_scalar_types_def)
  have s: "type_matches (x :: pyval) ''int'' = Inr (type_name x = ''int'')"
          "type_matches_t (x :: pyval) ''int'' = Inr (type_name x = ''int'')" for x
    by (simp_all add: type_matches_def type_matches_t_def allowed_types_eq
        list_element_type_def type_check_scalar_def)
  show ?thesis
    using a type_matches_list_tag [OF a, of "VList [VInt 1, VInt 2] :: pyval"]
      type_matches_list_tag [OF a, of "VList [VInt 1, VStr ''2''] :: pyval"]
      type_matches_list_tag [OF a, of "VList [VInt 1, VBool True] :: pyval"]
      type_matches_list_tag [OF a, of "VInt 1 :: pyval"]
    by (simp add: s list_tag_def)
qed


section \<open>Type fixation\<close>

lemma map_results_str_ints:
  "map_results (call_builtin B_str) (map VInt ns) = Inr (map (\<lambda>i. VStr (str_of_int i)) ns)"
  by (induction ns) simp_all

lemma coerce_list_int:
  "coerce (VList (map VInt ns)) ''List[int]'' = Inr (VList (map (\<lambda>i. VStr (str_of_int i)) ns))"
  by (simp add: coerce_def type_fixers_def tmp_def scalar_type_fixers_def list_tag_def
      comprehension_v_def list_map_def map_results_str_ints)

text \<open>
  C1.  The claim is that the \<open>List[int]\<close> entry of \<open>type_fixers\<close> returns a list of
  integers unchanged.  The entry is a closure over the comprehension variable \<open>v\<close>,
  which holds \<open>str\<close> by the time the closure is called, so the list \<open>[1, 2, 3]\<close>,
  which matches \<open>List[int]\<close>, comes back as \<open>['1', '2', '3']\<close>.
\<close>

theorem list_int_fixer_maps_str:
  "type_matches_t (VList [VInt 1, VInt 2, VInt 3] :: pyval) ''List[int]'' = Inr True
   \<and> coerce (VList [VInt 1, VInt 2, VInt 3]) ''List[int]''
       = Inr (VList [VStr ''1'', VStr ''2'', VStr ''3''])
   \<and> coerce (VList [VInt 1, VInt 2, VInt 3]) ''List[int]'' \<noteq> Inr (VList [VInt 1, VInt 2, VInt 3])"
proof -
  have "type_matches_t (VList [VInt 1, VInt 2, VInt 3] :: pyval) ''List[int]'' = Inr True"
    by (simp add: type_matches_t_def allowed_types_eq list_element_type_def is_word_char_def
        type_check_list_def type_check_scalar_def)
  moreover have "coerce (VList [VInt 1, VInt 2, VInt 3]) ''List[int]''
       = Inr (VList [VStr ''1'', VStr ''2'', VStr ''3''])"
    using coerce_list_int [of "[1, 2, 3]"] by (simp add: str_of_int_def)
  ultimately show ?thesis by simp
qed

section \<open>Properties of the node validator\<close>

declare validate_node.simps [simp del]
declare validate_node_st.simps [simp del]
declare check_predicates_node.simps [simp del]

subsection \<open>Lists of names\<close>

lemma subscripts_eq:
  "subscripts f key xs =
     (if list_all (\<lambda>x. f x \<noteq> None) xs then Inr (map (\<lambda>x. the (f x)) xs)
      else Inl (KeyError key))"
  by (induction xs) (auto split: option.splits)

lemma subscripts_Inl:
  "subscripts f key xs = Inl e \<Longrightarrow> e = KeyError key"
  by (simp add: subscripts_eq split: if_splits)

lemma subscripts_filter:
  "subscripts f key xs = Inr ns \<Longrightarrow>
   subscripts f key (filter P xs) = Inr (map (\<lambda>x. the (f x)) (filter P xs))"
  by (auto simp: subscripts_eq list_all_iff split: if_splits)

lemma subscripts_names:
  "subscripts f key xs = Inr ns \<Longrightarrow> set ns = {n. \<exists>x \<in> set xs. f x = Some n}"
  by (force simp: subscripts_eq list_all_iff split: if_splits)

subsection \<open>A template node without keywords\<close>

lemma template_lists_no_keywords:
  assumes "t_keywords t = None"
  shows "template_lists t =
           (case subscripts t_section ''section'' (the_list (t_sections t)) of
              Inl e \<Rightarrow> Inl (KeyError ''section'') | Inr _ \<Rightarrow> Inl (KeyError ''keywords''))"
  using assms
  by (auto simp: template_lists_def the_list_def split: option.splits sum.splits
      dest: subscripts_Inl)

text \<open>
  C10.  When the template node has no \<open>keywords\<close> entry, \<open>validate_node\<close> raises
  \<open>KeyError\<close> on every input dictionary, the empty one included: the list of
  keywords without documentation subscripts \<open>template_dict['keywords']\<close> although
  \<open>template_keywords\<close> was computed with a test for the key.  The key of the
  \<open>KeyError\<close> is \<open>keywords\<close> whenever every sub-section of the node has a name.
\<close>

theorem validate_node_without_keywords_KeyError:
  assumes "t_keywords template_dict = None"
  shows "(\<exists>k. validate_node (VDict dict) template_dict = Inl (KeyError k))
       \<and> (list_all (\<lambda>x. t_section x \<noteq> None) (the_list (t_sections template_dict)) \<longrightarrow>
            validate_node (VDict dict) template_dict = Inl (KeyError ''keywords''))"
proof -
  have v: "validate_node (VDict dict) template_dict =
        (case subscripts t_section ''section'' (the_list (t_sections template_dict)) of
              Inl e \<Rightarrow> Inl (KeyError ''section'') | Inr _ \<Rightarrow> Inl (KeyError ''keywords''))"
    by (simp add: validate_node.simps check_dict_def check_shape_def
        template_lists_no_keywords [OF assms] split: sum.splits)
  show ?thesis
    unfolding v by (simp add: subscripts_eq)
qed

theorem validate_node_without_keywords_KeyError_witness:
  "t_keywords (TNode None None (Some [TNode (Some ''scf'') (Some []) None])) = None
   \<and> validate_node (VDict (PyDict []))
        (TNode None None (Some [TNode (Some ''scf'') (Some []) None])) = Inl (KeyError ''keywords'')"
  using validate_node_without_keywords_KeyError
    [of "TNode None None (Some [TNode (Some ''scf'') (Some []) None])" "PyDict []"]
  by (simp add: the_list_def)

subsection \<open>The order of the checks\<close>

lemma template_lists_Inr:
  assumes "template_lists t = Inr (ts, tk, kws)"
  shows "t_keywords t = Some kws"
    and "subscripts kw_keyword ''keyword'' kws = Inr tk"
    and "subscripts t_section ''section'' (the_list (t_sections t)) = Inr ts"
    and "filter no_documentation kws = []"
  using assms
  by (auto simp: template_lists_def the_list_def subscripts_eq
      split: option.splits sum.splits if_splits)

lemma check_shape_eq:
  assumes "template_lists t = Inr (ts, tk, kws)"
  shows "check_shape d t =
     (if set (input_keywords_of d) - set tk \<noteq> {}
      then Inl (InputError (UnexpectedKeywords (set (input_keywords_of d) - set tk)))
      else if set (input_sections_of d) - set ts \<noteq> {}
      then Inl (InputError (UnexpectedSections (set (input_sections_of d) - set ts)))
      else if {n. \<exists>x \<in> set kws. kw_default x = None \<and> kw_keyword x = Some n}
                - set (input_keywords_of d) \<noteq> {}
      then Inl (InputError (MustBeSet
             ({n. \<exists>x \<in> set kws. kw_default x = None \<and> kw_keyword x = Some n}
                - set (input_keywords_of d))))
      else Inr (input_keywords_of d, tk, ts))"
proof -
  let ?nd = "filter (\<lambda>x. kw_default x = None) kws"
  have s: "subscripts kw_keyword ''keyword'' ?nd = Inr (map (\<lambda>x. the (kw_keyword x)) ?nd)"
    using template_lists_Inr(2) [OF assms] by (rule subscripts_filter)
  have n: "set (map (\<lambda>x. the (kw_keyword x)) ?nd)
      = {n. \<exists>x \<in> set kws. kw_default x = None \<and> kw_keyword x = Some n}"
    using subscripts_names [OF s] by auto
  show ?thesis
    unfolding check_shape_def Let_def assms sum.case prod.case s n by simp
qed

text \<open>
  C3 (amended).  \<open>validate_node\<close> does not collect errors: it raises at the first
  check of a node that fails.  For a template node that passes the template checks
  (it has keywords, all named and documented, and named sections), unexpected
  keywords raise one \<open>InputError\<close> that names all unexpected keywords of the node;
  if there are none, unexpected sections raise one \<open>InputError\<close> that names all of
  them; if there are none either, required keywords that are not set raise one
  \<open>InputError\<close> that names all of them.  What a later check would find is not
  reported.
\<close>

theorem validate_node_raises_first_failing_check:
  fixes dict :: pydict
  assumes "template_lists template_dict = Inr (template_sections, template_keywords, kws)"
  defines "unexpected_keywords \<equiv> set (input_keywords_of (items dict)) - set template_keywords"
    and "unexpected_sections \<equiv> set (input_sections_of (items dict)) - set template_sections"
    and "not_set \<equiv> {n. \<exists>x \<in> set kws. kw_default x = None \<and> kw_keyword x = Some n}
                      - set (input_keywords_of (items dict))"
  shows "(unexpected_keywords \<noteq> {} \<longrightarrow>
            validate_node (VDict dict) template_dict
              = Inl (InputError (UnexpectedKeywords unexpected_keywords)))
       \<and> (unexpected_keywords = {} \<and> unexpected_sections \<noteq> {} \<longrightarrow>
            validate_node (VDict dict) template_dict
              = Inl (InputError (UnexpectedSections unexpected_sections)))
       \<and> (unexpected_keywords = {} \<and> unexpected_sections = {} \<and> not_set \<noteq> {} \<longrightarrow>
            validate_node (VDict dict) template_dict = Inl (InputError (MustBeSet not_set)))"
  unfolding unexpected_keywords_def unexpected_sections_def not_set_def
  by (simp add: validate_node.simps check_dict_def check_shape_eq [OF assms(1)])


text \<open>The definitions a concrete call of \<open>validate_node\<close> unfolds to.\<close>

lemmas eval_defs = validate_node.simps check_dict_def check_shape_def template_lists_def
  input_keywords_of_def input_sections_of_def no_documentation_def is_space_def the_list_def
  missing_keywords_def first_named_def type_matches_def allowed_types_eq list_element_type_def
  is_word_char_def Let_def

text \<open>
  C3 as stated fails: with an unexpected keyword \<open>x\<close> and a required keyword \<open>a\<close>
  that is not set, the only thing reported is the unexpected keyword, although the
  same template on the empty input does report \<open>a\<close>.
\<close>

theorem validate_node_raises_first_failing_check_counterexample:
  "validate_node (VDict (PyDict [(''x'', VInt 1)]))
     (TNode None (Some [KwSpec (Some ''a'') (Some ''int'') None (Some ''doc'') None]) None)
     = Inl (InputError (UnexpectedKeywords {''x''}))
   \<and> validate_node (VDict (PyDict []))
     (TNode None (Some [KwSpec (Some ''a'') (Some ''int'') None (Some ''doc'') None]) None)
     = Inl (InputError (MustBeSet {''a''}))"
  by (simp add: eval_defs)

theorem validate_node_raises_first_failing_check_witness:
  "template_lists (TNode None (Some [KwSpec (Some ''a'') (Some ''int'') None (Some ''doc'') None])
       (Some [TNode (Some ''s'') (Some []) None]) :: pydict tnode)
     = Inr ([''s''], [''a''], [KwSpec (Some ''a'') (Some ''int'') None (Some ''doc'') None])
   \<and> validate_node (VDict (PyDict [(''x'', VInt 1), (''y'', VInt 2), (''z'', VDict (PyDict []))]))
     (TNode None (Some [KwSpec (Some ''a'') (Some ''int'') None (Some ''doc'') None])
       (Some [TNode (Some ''s'') (Some []) None]))
     = Inl (InputError (UnexpectedKeywords {''x'', ''y''}))
   \<and> validate_node (VDict (PyDict [(''z'', VDict (PyDict []))]))
     (TNode None (Some [KwSpec (Some ''a'') (Some ''int'') None (Some ''doc'') None])
       (Some [TNode (Some ''s'') (Some []) None]))
     = Inl (InputError (UnexpectedSections {''z''}))
   \<and> validate_node (VDict (PyDict [(''s'', VDict (PyDict []))]))
     (TNode None (Some [KwSpec (Some ''a'') (Some ''int'') None (Some ''doc'') None])
       (Some [TNode (Some ''s'') (Some []) None]))
     = Inl (InputError (MustBeSet {''a''}))"
proof -
  let ?k = "KwSpec (Some ''a'') (Some ''int'') None (Some ''doc'') None :: pydict kwspec"
  let ?t = "TNode None (Some [?k]) (Some [TNode (Some ''s'') (Some []) None])"
  have t: "template_lists ?t = Inr ([''s''], [''a''], [?k])"
    by (simp add: template_lists_def no_documentation_def is_space_def)
  show ?thesis
    using t
      validate_node_raises_first_failing_check [OF t,
        of "PyDict [(''x'', VInt 1), (''y'', VInt 2), (''z'', VDict (PyDict []))]"]
      validate_node_raises_first_failing_check [OF t, of "PyDict [(''z'', VDict (PyDict []))]"]
      validate_node_raises_first_failing_check [OF t, of "PyDict [(''s'', VDict (PyDict []))]"]
    by (auto simp: input_keywords_of_def input_sections_of_def)
qed

subsection \<open>Type mismatches\<close>

lemma check_types_append:
  "check_types d kws (pre @ post) =
     (case check_types d kws pre of Inl e \<Rightarrow> Inl e | Inr _ \<Rightarrow> check_types d kws post)"
  by (induction pre) (auto split: sum.splits option.splits)

lemma rec_typenade_mismatch:
  assumes "map_of incoming k = Some v"
      and "subscript types k = Inr (VStr ty)"
      and "v \<noteq> VNone" and "type_name v \<noteq> ''dict''"
      and "type_matches_t v ty = Inr False"
      and "rec_typenade incoming types fixate address = Inr (outgoing, errors)"
    shows "(address @ [k], TypesDoNotMatch (type_name v) ty) \<in> set errors
         \<and> map_of outgoing k = Some VNone"
  using assms
proof (induction incoming arbitrary: outgoing errors)
  case Nil
  then show ?case by simp
next
  case (Cons kv rest)
  obtain k' v' where kv: "kv = (k', v')" by (cases kv)
  show ?case
  proof (cases "k' = k")
    case True
    with Cons.prems kv have "v' = v" by simp
    with Cons.prems kv True show ?thesis
      by (cases v) (auto split: sum.splits if_splits)
  next
    case False
    with Cons.prems kv obtain out errs where
      r: "rec_typenade rest types fixate address = Inr (out, errs)"
      and o: "\<exists>r. outgoing = (k', r) # out" and e: "\<exists>es. errors = es @ errs"
      by (auto split: sum.splits)
    from Cons.prems kv False have "map_of rest k = Some v" by simp
    from Cons.IH [OF this Cons.prems(2-5) r] o e False show ?thesis by auto
  qed
qed

text \<open>
  C6 (amended).  When the type loop of \<open>validate_node\<close> reaches a keyword whose
  value does not match the declared type (the checks before it having passed), it
  raises an \<open>InputError\<close> that names the keyword and the declared type, not the actual
  type, and no merged tree is returned.  The function that records an error naming
  the actual and the declared type and sets the value to \<open>None\<close> is \<open>rec_typenade\<close>
  of \<open>types.py\<close>: it does so whenever it returns.
\<close>

theorem type_mismatch_reporting:
  "(check_shape (items dict) template_dict
        = Inr (input_keywords, template_keywords, template_sections)
    \<and> input_keywords = pre @ keyword # post
    \<and> check_types (items dict) (the_list (t_keywords template_dict)) pre = Inr ()
    \<and> first_named kw_keyword ''keyword'' keyword (the_list (t_keywords template_dict))
        = Inr template_keyword
    \<and> kw_type template_keyword = Some ty
    \<and> map_of (items dict) keyword = Some v
    \<and> type_matches v ty = Inr False
    \<longrightarrow> validate_node (VDict dict) template_dict = Inl (InputError (IncorrectType keyword ty)))
   \<and> (map_of incoming k = Some w
    \<and> subscript types k = Inr (VStr declared)
    \<and> w \<noteq> VNone \<and> type_name w \<noteq> ''dict''
    \<and> type_matches_t w declared = Inr False
    \<and> rec_typenade incoming types fixate address = Inr (outgoing, errors)
    \<longrightarrow> (address @ [k], TypesDoNotMatch (type_name w) declared) \<in> set errors
        \<and> map_of outgoing k = Some VNone)"
proof (intro conjI impI)
  assume "check_shape (items dict) template_dict
        = Inr (input_keywords, template_keywords, template_sections)
    \<and> input_keywords = pre @ keyword # post
    \<and> check_types (items dict) (the_list (t_keywords template_dict)) pre = Inr ()
    \<and> first_named kw_keyword ''keyword'' keyword (the_list (t_keywords template_dict))
        = Inr template_keyword
    \<and> kw_type template_keyword = Some ty
    \<and> map_of (items dict) keyword = Some v
    \<and> type_matches v ty = Inr False"
  then show "validate_node (VDict dict) template_dict = Inl (InputError (IncorrectType keyword ty))"
    by (simp add: validate_node.simps check_dict_def check_types_append)
next
  assume a: "map_of incoming k = Some w
    \<and> subscript types k = Inr (VStr declared)
    \<and> w \<noteq> VNone \<and> type_name w \<noteq> ''dict''
    \<and> type_matches_t w declared = Inr False
    \<and> rec_typenade incoming types fixate address = Inr (outgoing, errors)"
  then show "(address @ [k], TypesDoNotMatch (type_name w) declared) \<in> set errors"
    and "map_of outgoing k = Some VNone"
    using rec_typenade_mismatch [of incoming k w types declared fixate address outgoing errors]
    by simp_all
qed

text \<open>
  C6 as stated fails for \<open>validate_node\<close>: for the keyword \<open>n\<close> declared \<open>int\<close> and
  the input value \<open>"5"\<close> the exception carries \<open>n\<close> and \<open>int\<close>; the actual type
  \<open>str\<close> is not in it.
\<close>

theorem type_mismatch_reporting_counterexample:
  "validate_node (VDict (PyDict [(''n'', VStr ''5'')]))
     (TNode None (Some [KwSpec (Some ''n'') (Some ''int'') (Some (VInt 0)) (Some ''doc'') None]) None)
     = Inl (InputError (IncorrectType ''n'' ''int''))
   \<and> type_name (VStr ''5'' :: pyval) = ''str''"
  by (simp add: eval_defs)

theorem type_mismatch_reporting_witness:
  "validate_node (VDict (PyDict [(''m'', VInt 1), (''n'', VStr ''5'')]))
     (TNode None (Some [KwSpec (Some ''m'') (Some ''int'') None (Some ''doc'') None,
                        KwSpec (Some ''n'') (Some ''int'') (Some (VInt 0)) (Some ''doc'') None]) None)
     = Inl (InputError (IncorrectType ''n'' ''int''))
   \<and> rec_typenade [(''m'', VInt 1), (''n'', VStr ''5'')]
        (VDict (PyDict [(''m'', VStr ''int''), (''n'', VStr ''int'')])) True []
      = Inr ([(''m'', VInt 1), (''n'', VNone)], [([''n''], TypesDoNotMatch ''str'' ''int'')])
   \<and> ([] @ [''n''], TypesDoNotMatch (type_name (VStr ''5'' :: pyval)) ''int'')
        \<in> set [([''n''], TypesDoNotMatch ''str'' ''int'')]
   \<and> map_of [(''m'', VInt 1 :: pyval), (''n'', VNone)] ''n'' = Some VNone"
proof -
  let ?m = "KwSpec (Some ''m'') (Some ''int'') None (Some ''doc'') None :: pydict kwspec"
  let ?n = "KwSpec (Some ''n'') (Some ''int'') (Some (VInt 0)) (Some ''doc'') None :: pydict kwspec"
  let ?t = "TNode None (Some [?m, ?n]) None"
  let ?d = "PyDict [(''m'', VInt 1), (''n'', VStr ''5'')]"
  let ?types = "VDict (PyDict [(''m'', VStr ''int''), (''n'', VStr ''int'')])"
  have 1: "check_shape (items ?d) ?t = Inr ([''m'', ''n''], [''m'', ''n''], [])"
    by (simp add: check_shape_def template_lists_def input_keywords_of_def
        input_sections_of_def no_documentation_def is_space_def Let_def)
  have 2: "check_types (items ?d) (the_list (t_keywords ?t)) [''m''] = Inr ()"
    by (simp add: eval_defs)
  have 3: "first_named kw_keyword ''keyword'' ''n'' (the_list (t_keywords ?t)) = Inr ?n"
    by (simp add: first_named_def the_list_def)
  have 4: "type_matches (VStr ''5'' :: pyval) ''int'' = Inr False"
    by (simp add: eval_defs)
  have 5: "subscript ?types ''n'' = Inr (VStr ''int'')"
    by (simp add: subscript_def)
  have 6: "type_matches_t (VStr ''5'' :: pyval) ''int'' = Inr False"
    by (simp add: type_matches_t_def allowed_types_eq list_element_type_def type_check_scalar_def)
  have 7: "rec_typenade (items ?d) ?types True []
      = Inr ([(''m'', VInt 1), (''n'', VNone)], [([''n''], TypesDoNotMatch ''str'' ''int'')])"
    by (simp add: subscript_def type_matches_t_def allowed_types_eq list_element_type_def
        type_check_scalar_def coerce_def type_fixers_def scalar_type_fixers_def tmp_def)
  show ?thesis
    using 1 2 3 4 5 6 7
      type_mismatch_reporting [of ?d ?t "[''m'', ''n'']" "[''m'', ''n'']" "[]" "[''m'']" "''n''" "[]"
        ?n "''int''" "VStr ''5''" "items ?d" "''n''" "VStr ''5''" ?types "''int''" True "[]"
        "[(''m'', VInt 1), (''n'', VNone)]" "[([''n''], TypesDoNotMatch ''str'' ''int'')]"]
    by simp
qed

section \<open>Properties of the predicate checker\<close>

lemma check_predicate_list_passed:
  "\<forall>q \<in> set passed. evl q = Inr True \<Longrightarrow>
   check_predicate_list evl keyword (passed @ rest) = check_predicate_list evl keyword rest"
  by (induction passed) simp_all

lemma check_keyword_predicates_append:
  "check_keyword_predicates ev i n t d (earlier @ later) =
     (case check_keyword_predicates ev i n t d earlier of
        Inl e \<Rightarrow> Inl e
      | Inr _ \<Rightarrow> check_keyword_predicates ev i n t d later)"
  by (induction earlier) (auto split: sum.splits option.splits)

text \<open>
  C9.  In \<open>check_predicates_node\<close>, take a keyword of the node and one of its
  predicates, and let everything before it in the traversal pass (the keywords
  before it, and the predicates of the keyword before it).  If the predicate
  evaluates to false the call raises an \<open>InputError\<close> that carries the predicate
  text and the keyword; if \<open>eval\<close> raises \<open>SyntaxError\<close> the call raises a
  \<open>TemplateError\<close>; and any other exception of \<open>eval\<close>, such as a \<open>NameError\<close>,
  leaves the call as it is, neither an \<open>InputError\<close> nor a \<open>TemplateError\<close>.
\<close>

theorem predicate_outcomes:
  assumes "subscripts t_section ''section'' (the_list (t_sections template_dict_node))
             = Inr template_sections"
      and "input_keywords_of (items dict) = earlier @ keyword # later"
      and "check_keyword_predicates ev input_dict (VDict dict) template_dict_node (items dict)
             earlier = Inr ()"
      and "t_keywords template_dict_node = Some kws"
      and "first_named kw_keyword ''keyword'' keyword kws = Inr template_keyword"
      and "map_of (items dict) keyword = Some v"
      and "kw_predicates template_keyword = Some (passed @ predicate # rest)"
      and "\<forall>q \<in> set passed. ev q input_dict (VDict dict) template_dict_node keyword v = Inr True"
  shows "(ev predicate input_dict (VDict dict) template_dict_node keyword v = Inr False \<longrightarrow>
            check_predicates_node ev input_dict (VDict dict) template_dict_node
              = Inl (InputError (PredicateFailed predicate keyword)))
       \<and> (ev predicate input_dict (VDict dict) template_dict_node keyword v = Inl SyntaxError \<longrightarrow>
            check_predicates_node ev input_dict (VDict dict) template_dict_node
              = Inl (TemplateError (PredicateSyntax predicate keyword)))
       \<and> (\<forall>e. e \<noteq> SyntaxError
              \<and> ev predicate input_dict (VDict dict) template_dict_node keyword v = Inl e \<longrightarrow>
            check_predicates_node ev input_dict (VDict dict) template_dict_node = Inl e)"
proof -
  let ?evl = "\<lambda>p. ev p input_dict (VDict dict) template_dict_node keyword v"
  have ts: "(case t_sections template_dict_node of None \<Rightarrow> Inr []
             | Some secs \<Rightarrow> subscripts t_section ''section'' secs) = Inr template_sections"
    using assms(1) by (simp add: the_list_def split: option.splits)
  have kw: "check_keyword_predicates ev input_dict (VDict dict) template_dict_node (items dict)
              (input_keywords_of (items dict))
        = (case check_predicate_list ?evl keyword (predicate # rest) of
             Inl e \<Rightarrow> Inl e
           | Inr _ \<Rightarrow> check_keyword_predicates ev input_dict (VDict dict) template_dict_node
                         (items dict) later)"
    using assms(3-7) check_predicate_list_passed [OF assms(8), of keyword "predicate # rest"]
    by (simp add: assms(2) check_keyword_predicates_append)
  show ?thesis
    by (simp add: check_predicates_node.simps ts kw)
qed

theorem predicate_outcomes_witness:
  "check_predicates_node
     (\<lambda>p i n t k v. if p = ''value > 0'' then Inr (case v of VInt j \<Rightarrow> 0 < j | _ \<Rightarrow> False)
                     else if p = ''value >'' then Inl SyntaxError else Inl NameError)
     (VDict (PyDict [(''n'', VInt (- 1))])) (VDict (PyDict [(''n'', VInt (- 1))]))
     (TNode None (Some [KwSpec (Some ''n'') (Some ''int'') None (Some ''doc'')
                          (Some [''value > 0''])]) None)
     = Inl (InputError (PredicateFailed ''value > 0'' ''n''))
   \<and> check_predicates_node
     (\<lambda>p i n t k v. if p = ''value > 0'' then Inr (case v of VInt j \<Rightarrow> 0 < j | _ \<Rightarrow> False)
                     else if p = ''value >'' then Inl SyntaxError else Inl NameError)
     (VDict (PyDict [(''n'', VInt 1)])) (VDict (PyDict [(''n'', VInt 1)]))
     (TNode None (Some [KwSpec (Some ''n'') (Some ''int'') None (Some ''doc'')
                          (Some [''value > 0'', ''value >''])]) None)
     = Inl (TemplateError (PredicateSyntax ''value >'' ''n''))
   \<and> check_predicates_node
     (\<lambda>p i n t k v. if p = ''value > 0'' then Inr (case v of VInt j \<Rightarrow> 0 < j | _ \<Rightarrow> False)
                     else if p = ''value >'' then Inl SyntaxError else Inl NameError)
     (VDict (PyDict [(''n'', VInt 1)])) (VDict (PyDict [(''n'', VInt 1)]))
     (TNode None (Some [KwSpec (Some ''n'') (Some ''int'') None (Some ''doc'')
                          (Some [''value > 0'', ''valu > 0''])]) None)
     = Inl NameError"
proof -
  let ?ev = "\<lambda>p (i :: pyval) (n :: pyval) (t :: pydict tnode) (k :: string) (v :: pyval).
               if p = ''value > 0'' then Inr (case v of VInt j \<Rightarrow> 0 < j | _ \<Rightarrow> False)
               else if p = ''value >'' then Inl SyntaxError else Inl NameError"
  let ?k = "\<lambda>ps. KwSpec (Some ''n'') (Some ''int'') None (Some ''doc'') (Some ps) :: pydict kwspec"
  let ?t = "\<lambda>ps. TNode None (Some [?k ps]) None"
  let ?d = "\<lambda>j. PyDict [(''n'', VInt j)]"
  have b: "input_keywords_of (items (?d j)) = [] @ ''n'' # []" for j
    by (simp add: input_keywords_of_def input_sections_of_def)
  have d: "first_named kw_keyword ''keyword'' ''n'' [?k ps] = Inr (?k ps)" for ps
    by (simp add: first_named_def)
  have 1: "check_predicates_node ?ev (VDict (?d (- 1))) (VDict (?d (- 1))) (?t [''value > 0''])
     = Inl (InputError (PredicateFailed ''value > 0'' ''n''))"
    using b [of "- 1"] d [of "[''value > 0'']"]
      predicate_outcomes [where template_dict_node = "?t [''value > 0'']"
        and template_sections = "[]" and dict = "?d (- 1)" and earlier = "[]"
        and keyword = "''n''" and later = "[]" and ev = ?ev and input_dict = "VDict (?d (- 1))"
        and kws = "[?k [''value > 0'']]" and template_keyword = "?k [''value > 0'']"
        and v = "VInt (- 1)" and passed = "[]" and predicate = "''value > 0''" and rest = "[]"]
    by (simp add: the_list_def)
  have 2: "check_predicates_node ?ev (VDict (?d 1)) (VDict (?d 1)) (?t [''value > 0'', ''value >''])
     = Inl (TemplateError (PredicateSyntax ''value >'' ''n''))"
    using b [of 1] d [of "[''value > 0'', ''value >'']"]
      predicate_outcomes [where template_dict_node = "?t [''value > 0'', ''value >'']"
        and template_sections = "[]" and dict = "?d 1" and earlier = "[]"
        and keyword = "''n''" and later = "[]" and ev = ?ev and input_dict = "VDict (?d 1)"
        and kws = "[?k [''value > 0'', ''value >'']]"
        and template_keyword = "?k [''value > 0'', ''value >'']"
        and v = "VInt 1" and passed = "[''value > 0'']" and predicate = "''value >''"
        and rest = "[]"]
    by (simp add: the_list_def)
  have 3: "check_predicates_node ?ev (VDict (?d 1)) (VDict (?d 1)) (?t [''value > 0'', ''valu > 0''])
     = Inl NameError"
    using b [of 1] d [of "[''value > 0'', ''valu > 0'']"]
      predicate_outcomes [where template_dict_node = "?t [''value > 0'', ''valu > 0'']"
        and template_sections = "[]" and dict = "?d 1" and earlier = "[]"
        and keyword = "''n''" and later = "[]" and ev = ?ev and input_dict = "VDict (?d 1)"
        and kws = "[?k [''value > 0'', ''valu > 0'']]"
        and template_keyword = "?k [''value > 0'', ''valu > 0'']"
        and v = "VInt 1" and passed = "[''value > 0'']" and predicate = "''valu > 0''"
        and rest = "[]"]
    by (simp add: the_list_def)
  show ?thesis using 1 2 3 by simp
qed

section \<open>Keys of the dictionaries in the store\<close>

lemma fill_defaults_keys:
  "fst ` set d \<subseteq> fst ` set (snd (fill_defaults kws ks d))"
proof (induction ks arbitrary: d)
  case Nil
  show ?case by simp
next
  case (Cons k ks)
  have "fst ` set d \<subseteq> fst ` set (snd (fill_defaults kws ks (AList.update k v d)))" for v
    using Cons.IH [of "AList.update k v d"] by (auto simp: dom_update)
  then show ?case
    by (simp split: sum.splits option.splits)
qed

lemma fill_defaults_filled:
  "fst (fill_defaults kws ks d) = Inr () \<Longrightarrow> set ks \<subseteq> fst ` set (snd (fill_defaults kws ks d))"
proof (induction ks arbitrary: d)
  case Nil
  then show ?case by simp
next
  case (Cons k ks)
  then show ?case
    using fill_defaults_keys [of "AList.update k v d" kws ks for v]
    by (auto simp: dom_update split: sum.splits option.splits)
qed

lemma validate_st_keys:
  "fst ` set (h b) \<subseteq> fst ` set (snd (validate_node_st v t h) b)"
  "fst ` set (h b) \<subseteq> fst ` set (snd (validate_sections_st a secs names h) b)"
proof (induction v t h and a secs names h arbitrary: b and b
    rule: validate_node_st_validate_sections_st.induct)
  case (1 input_dict template_dict h)
  show ?case
  proof (cases input_dict)
    case (VDict a)
    show ?thesis
    proof (cases "check_dict (h a) template_dict")
      case (Inl e)
      with VDict show ?thesis by (simp add: validate_node_st.simps)
    next
      case (Inr res)
      obtain ik tk ts where res: "res = (ik, tk, ts)" by (cases res)
      obtain r d1 where fd: "fill_defaults (the_list (t_keywords template_dict))
          (missing_keywords tk ik) (h a) = (r, d1)" by force
      have k1: "fst ` set (h a) \<subseteq> fst ` set d1"
        using fill_defaults_keys [of "h a" "the_list (t_keywords template_dict)"
            "missing_keywords tk ik"] fd by simp
      show ?thesis
      proof (cases r)
        case (Inl e)
        with VDict Inr res fd k1 show ?thesis
          by (auto simp: validate_node_st.simps)
      next
        case (Inr u)
        have ih: "fst ` set ((h(a := d1)) b) \<subseteq> fst ` set (snd (validate_sections_st a
              (the_list (t_sections template_dict)) ts (h(a := d1))) b)"
          using "1.IH" [OF VDict \<open>check_dict (h a) template_dict = Inr res\<close>
              res [symmetric] refl fd [symmetric] Inr] .
        have "fst ` set (h b) \<subseteq> fst ` set ((h(a := d1)) b)"
          using k1 by auto
        with ih have "fst ` set (h b) \<subseteq> fst ` set (snd (validate_sections_st a
              (the_list (t_sections template_dict)) ts (h(a := d1))) b)"
          by blast
        moreover have "snd (validate_node_st input_dict template_dict h)
            = snd (validate_sections_st a (the_list (t_sections template_dict)) ts (h(a := d1)))"
          using VDict \<open>check_dict (h a) template_dict = Inr res\<close> res fd Inr
          by (simp add: validate_node_st.simps split: prod.splits sum.splits)
        ultimately show ?thesis by simp
      qed
    qed
  qed (simp_all add: validate_node_st.simps)
next
  case (2 a secs h)
  show ?case by simp
next
  case (3 a secs name rest h)
  show ?case
  proof (cases "map_of (h a) name")
    case None
    then show ?thesis by simp
  next
    case (Some input_section)
    show ?thesis
    proof (cases "first_named t_section ''section'' name secs")
      case (Inl e)
      with Some show ?thesis by simp
    next
      case (Inr template_section)
      obtain r h1 where v: "validate_node_st input_section template_section h = (r, h1)"
        by force
      have s1: "fst ` set (h b) \<subseteq> fst ` set (h1 b)" for b
        using "3.IH"(1) [OF Some Inr, of b] v by simp
      show ?thesis
      proof (cases r)
        case (Inl e)
        with Some \<open>first_named t_section ''section'' name secs = Inr template_section\<close> v s1
        show ?thesis by simp
      next
        case (Inr res)
        let ?h2 = "h1(a := AList.update name res (h1 a))"
        have s2: "fst ` set (h1 b) \<subseteq> fst ` set (?h2 b)"
          by (auto simp: dom_update)
        have "fst ` set (?h2 b) \<subseteq> fst ` set (snd (validate_sections_st a secs rest ?h2) b)"
          using "3.IH"(2) [OF Some \<open>first_named t_section ''section'' name secs
              = Inr template_section\<close> v [symmetric] Inr] .
        with s1 [of b] s2 Some
          \<open>first_named t_section ''section'' name secs = Inr template_section\<close> v Inr
        show ?thesis by auto
      qed
    qed
  qed
qed


lemma check_dict_Inr:
  assumes "check_dict d t = Inr (ik, tk, ts)"
  obtains kws where "template_lists t = Inr (ts, tk, kws)" and "ik = input_keywords_of d"
    and "check_shape d t = Inr (ik, tk, ts)" and "check_types d kws ik = Inr ()"
proof -
  from assms have cs: "check_shape d t = Inr (ik, tk, ts)"
    and ct: "check_types d (the_list (t_keywords t)) ik = Inr ()"
    by (auto simp: check_dict_def split: sum.splits)
  from cs obtain ts' tk' kws where tl': "template_lists t = Inr (ts', tk', kws)"
    by (cases "template_lists t") (auto simp: check_shape_def Let_def)
  from cs have eq: "ik = input_keywords_of d" "tk' = tk" "ts' = ts"
    by (auto simp: check_shape_eq [OF tl'] split: if_splits)
  from tl' eq have tl: "template_lists t = Inr (ts, tk, kws)" by simp
  note \<open>ik = input_keywords_of d\<close>
  moreover have "the_list (t_keywords t) = kws"
    using template_lists_Inr(1) [OF tl] by (simp add: the_list_def)
  ultimately show ?thesis using that tl cs ct by simp
qed

lemma input_keywords_are_keys: "set (input_keywords_of d) \<subseteq> fst ` set d"
  by (auto simp: input_keywords_of_def)

section \<open>The merged tree\<close>

subsection \<open>What the two loops leave behind\<close>

lemma fill_defaults_values:
  assumes "fst (fill_defaults kws ks d) = Inr ()"
  shows "map_of (snd (fill_defaults kws ks d)) k
           = (if k \<in> set ks then default_of kws k else map_of d k)"
    and "\<forall>k \<in> set ks. default_of kws k \<noteq> None"
  using assms
proof (induction ks arbitrary: d)
  case Nil
  {
    case 1 show ?case by simp
  next
    case 2 show ?case by simp
  }
next
  case (Cons a ks)
  {
    case 1
    then obtain spec v where s: "first_named kw_keyword ''keyword'' a kws = Inr spec"
      "kw_default spec = Some v"
      and r: "fst (fill_defaults kws ks (AList.update a v d)) = Inr ()"
      by (auto split: sum.splits option.splits)
    show ?case
      using s Cons.IH(1) [OF r] 
      by (simp add: default_of_def update_conv')
  next
    case 2
    then obtain spec v where s: "first_named kw_keyword ''keyword'' a kws = Inr spec"
      "kw_default spec = Some v"
      and r: "fst (fill_defaults kws ks (AList.update a v d)) = Inr ()"
      by (auto split: sum.splits option.splits)
    show ?case
      using s Cons.IH(2) [OF r] by (simp add: default_of_def)
  }
qed

lemma fill_defaults_key_set:
  assumes "fst (fill_defaults kws ks d) = Inr ()"
  shows "fst ` set (snd (fill_defaults kws ks d)) = fst ` set d \<union> set ks"
  using assms
proof (induction ks arbitrary: d)
  case Nil
  show ?case by simp
next
  case (Cons a ks)
  then obtain spec v where s: "first_named kw_keyword ''keyword'' a kws = Inr spec"
      "kw_default spec = Some v"
      and r: "fst (fill_defaults kws ks (AList.update a v d)) = Inr ()"
      by (auto split: sum.splits option.splits)
  show ?case
    using s Cons.IH [OF r] by (auto simp: dom_update)
qed

lemma validate_node_Inr:
  assumes "validate_node v t = Inr r"
  obtains dict ik tk ts d1 d2 where "v = VDict dict" and "r = VDict (PyDict d2)"
    and "check_dict (items dict) t = Inr (ik, tk, ts)"
    and "fill_defaults (the_list (t_keywords t)) (missing_keywords tk ik) (items dict)
           = (Inr (), d1)"
    and "validate_sections (the_list (t_sections t)) ts d1 = Inr d2"
proof -
  from assms obtain dict where v: "v = VDict dict"
    by (cases v) (simp_all add: validate_node.simps)
  from assms v obtain ik tk ts where cd: "check_dict (items dict) t = Inr (ik, tk, ts)"
    by (cases "check_dict (items dict) t") (auto simp: validate_node.simps)
  obtain u d1 where fd: "fill_defaults (the_list (t_keywords t)) (missing_keywords tk ik)
      (items dict) = (u, d1)" by force
  from assms v cd fd have u: "u = Inr ()"
    by (cases u) (simp_all add: validate_node.simps)
  from assms v cd fd u obtain d2 where "validate_sections (the_list (t_sections t)) ts d1 = Inr d2"
    and "r = VDict (PyDict d2)"
    by (auto simp: validate_node.simps split: sum.splits)
  with v cd fd u that show ?thesis by simp
qed

lemma validate_sections_keys:
  "validate_sections secs names d = Inr d' \<Longrightarrow> map fst d' = map fst d"
proof (induction names arbitrary: d)
  case Nil
  then show ?case by simp
next
  case (Cons s names)
  then obtain v tsec r where v: "map_of d s = Some v"
    and l: "validate_sections secs names (AList.update s r d) = Inr d'"
    by (auto split: option.splits sum.splits)
  from v have "s \<in> fst ` set d" by (auto dest: map_of_SomeD intro: rev_image_eqI)
  then have "map fst (AList.update s r d) = map fst d"
    by (simp add: update_keys)
  with Cons.IH [OF l] show ?case by simp
qed

lemma validate_sections_others:
  "validate_sections secs names d = Inr d' \<Longrightarrow> k \<notin> set names \<Longrightarrow> map_of d' k = map_of d k"
proof (induction names arbitrary: d)
  case Nil
  then show ?case by simp
next
  case (Cons s names)
  then obtain r where l: "validate_sections secs names (AList.update s r d) = Inr d'"
    by (auto split: option.splits sum.splits)
  from Cons.IH [OF l] Cons.prems(2) show ?case by (simp add: update_conv')
qed

lemma validate_sections_initial:
  "validate_sections secs names d = Inr d' \<Longrightarrow> s \<in> set names \<Longrightarrow>
   \<exists>dd. map_of d s = Some (VDict dd)"
proof (induction names arbitrary: d)
  case Nil
  then show ?case by simp
next
  case (Cons n names)
  then obtain v tsec r where v: "map_of d n = Some v"
    and vn: "validate_node v tsec = Inr r"
    and l: "validate_sections secs names (AList.update n r d) = Inr d'"
    by (auto split: option.splits sum.splits)
  from vn obtain dd where dd: "v = VDict dd" by (rule validate_node_Inr)
  show ?case
  proof (cases "s = n")
    case True
    with v dd show ?thesis by simp
  next
    case False
    with Cons.prems(2) have "s \<in> set names" by simp
    from Cons.IH [OF l this] False show ?thesis by (simp add: update_conv')
  qed
qed

lemma validate_sections_final:
  "validate_sections secs names d = Inr d' \<Longrightarrow> s \<in> set names \<Longrightarrow>
   \<exists>v tsec r. first_named t_section ''section'' s secs = Inr tsec
      \<and> validate_node v tsec = Inr r \<and> map_of d' s = Some r"
proof (induction names arbitrary: d)
  case Nil
  then show ?case by simp
next
  case (Cons n names)
  then obtain v tsec r where v: "map_of d n = Some v"
    and fn: "first_named t_section ''section'' n secs = Inr tsec"
    and vn: "validate_node v tsec = Inr r"
    and l: "validate_sections secs names (AList.update n r d) = Inr d'"
    by (auto split: option.splits sum.splits)
  show ?case
  proof (cases "s \<in> set names")
    case True
    from Cons.IH [OF l this] show ?thesis .
  next
    case False
    with Cons.prems(2) have sn: "s = n" by simp
    from validate_sections_others [OF l False] have "map_of d' s = Some r"
      by (simp add: sn update_conv')
    with fn vn sn show ?thesis by blast
  qed
qed

lemma validate_sections_fixed:
  "\<forall>s \<in> set names. \<exists>r tsec. map_of d s = Some r
       \<and> first_named t_section ''section'' s secs = Inr tsec \<and> validate_node r tsec = Inr r
   \<Longrightarrow> validate_sections secs names d = Inr d"
  by (induction names) (auto simp: update_triv)


subsection \<open>Keys of a dictionary and types of values\<close>

lemma first_named_Inr:
  "first_named f key n xs = Inr x \<Longrightarrow> x \<in> set xs \<and> f x = Some n"
  by (auto simp: first_named_def split: sum.splits list.splits dest: filter_eq_ConsD)

lemma input_sections_iff:
  "k \<in> set (input_sections_of d) \<longleftrightarrow> (\<exists>v. map_of d k = Some v \<and> type_name v = ''dict'')"
  by (auto simp: input_sections_of_def split: option.splits
      dest: map_of_SomeD intro: rev_image_eqI)

lemma input_keywords_iff:
  "k \<in> set (input_keywords_of d) \<longleftrightarrow> (\<exists>v. map_of d k = Some v \<and> type_name v \<noteq> ''dict'')"
proof -
  have "k \<in> fst ` set d \<longleftrightarrow> (\<exists>v. map_of d k = Some v)"
    by (metis map_of_eq_None_iff not_Some_eq)
  then show ?thesis
    by (auto simp: input_keywords_of_def input_sections_iff)
qed

lemma check_types_Inr_iff:
  "check_types d kws ks = Inr () \<longleftrightarrow>
     (\<forall>k \<in> set ks. \<exists>spec ty v. first_named kw_keyword ''keyword'' k kws = Inr spec
        \<and> kw_type spec = Some ty \<and> map_of d k = Some v \<and> type_matches v ty = Inr True)"
  by (induction ks) (auto split: sum.splits option.splits)

lemma type_matches_not_dict:
  "type_matches v ty = Inr True \<Longrightarrow> type_name v \<noteq> ''dict''"
  by (auto simp: type_matches_def allowed_types_eq split: if_splits option.splits val.splits)

subsection \<open>Sections of the template\<close>

text \<open>
  C5.  The claim is that a section which the template node declares and the input
  node lacks is validated as an empty mapping, so that it is present in the merged
  result.  The loop over the sections of the template subscripts
  \<open>input_dict[section]\<close> and does not provide for an absent section.  The template
  below has the section \<open>scf\<close>, whose only keyword has a default.  On the empty
  input the call raises \<open>KeyError\<close>, in the model by value and in the store model,
  although the empty mapping validated against the section \<open>scf\<close> is merged to
  \<open>{'b': 'x'}\<close>.
\<close>

theorem absent_section_raises_KeyError:
  "validate_node (VDict (PyDict []))
     (TNode None (Some [])
        (Some [TNode (Some ''scf'')
                 (Some [KwSpec (Some ''b'') (Some ''str'') (Some (VStr ''x'')) (Some ''doc'') None])
                 None]))
   = Inl (KeyError ''scf'')
   \<and> validate_node (VDict (PyDict []))
        (TNode (Some ''scf'')
           (Some [KwSpec (Some ''b'') (Some ''str'') (Some (VStr ''x'')) (Some ''doc'') None])
           None)
      = Inr (VDict (PyDict [(''b'', VStr ''x'')]))
   \<and> fst (validate_node_st (VDict 0)
             (TNode None (Some [])
                (Some [TNode (Some ''scf'')
                         (Some [KwSpec (Some ''b'') (Some ''str'') (Some (VStr ''x''))
                                  (Some ''doc'') None])
                         None]))
             empty_store)
      = Inl (KeyError ''scf'')"
  by (simp add: validate_node_st.simps eval_defs empty_store_def)

subsection \<open>Validating the merged tree again\<close>

lemma merged_tree_is_fixed:
  assumes "defaults_well_typed template_dict"
      and "validate_node input_dict template_dict = Inr merged"
  shows "validate_node merged template_dict = Inr merged"
  using assms
proof (induction template_dict arbitrary: input_dict merged rule: measure_induct_rule [where f = size])
  case (less t)
  let ?secs = "the_list (t_sections t)"
  let ?kws = "the_list (t_keywords t)"
  from less.prems(2) obtain dict ik tk ts d1 d2 where v: "input_dict = VDict dict"
    and r: "merged = VDict (PyDict d2)"
    and cd: "check_dict (items dict) t = Inr (ik, tk, ts)"
    and fd: "fill_defaults ?kws (missing_keywords tk ik) (items dict) = (Inr (), d1)"
    and vs: "validate_sections ?secs ts d1 = Inr d2"
    by (rule validate_node_Inr)
  let ?d = "items dict"
  let ?missing = "missing_keywords tk ik"
  from cd obtain kws where tl: "template_lists t = Inr (ts, tk, kws)"
    and ik: "ik = input_keywords_of ?d"
    and cs: "check_shape ?d t = Inr (ik, tk, ts)"
    and ct: "check_types ?d kws ik = Inr ()"
    by (rule check_dict_Inr)
  have kws: "?kws = kws"
    using template_lists_Inr(1) [OF tl] by (simp add: the_list_def)
  have tk: "set tk = {n. \<exists>x \<in> set kws. kw_keyword x = Some n}"
    using template_lists_Inr(2) [OF tl] by (rule subscripts_names)
  from cs have U: "set ik \<subseteq> set tk"
    and S: "set (input_sections_of ?d) \<subseteq> set ts"
    and M: "{n. \<exists>x \<in> set kws. kw_default x = None \<and> kw_keyword x = Some n} \<subseteq> set ik"
    unfolding check_shape_eq [OF tl] ik by (auto split: if_splits)
  have missing: "set ?missing = set tk - set ik"
    by (auto simp: missing_keywords_def)
  have d1: "map_of d1 k = (if k \<in> set ?missing then default_of kws k else map_of ?d k)" for k
    using fill_defaults_values(1) [of ?kws ?missing ?d k] fd kws by simp
  have dflt: "\<exists>w ty spec. default_of kws k = Some w
                \<and> first_named kw_keyword ''keyword'' k kws = Inr spec
                \<and> kw_default spec = Some w \<and> kw_type spec = Some ty
                \<and> type_matches w ty = Inr True"
    if "k \<in> set ?missing" for k
  proof -
    from fill_defaults_values(2) [of ?kws ?missing ?d] fd kws that
    obtain w where w: "default_of kws k = Some w" by auto
    then obtain spec where spec: "first_named kw_keyword ''keyword'' k kws = Inr spec"
      "kw_default spec = Some w"
      by (auto simp: default_of_def split: sum.splits)
    from first_named_Inr [OF spec(1)] have "spec \<in> set kws" by simp
    with less.prems(1) kws have "default_matches spec"
      by (cases t) (auto simp: list_all_iff)
    with spec(2) obtain ty where "kw_type spec = Some ty" "type_matches w ty = Inr True"
      by (auto simp: default_matches_def split: option.splits)
    with w spec show ?thesis by blast
  qed
  have keys: "map fst d2 = map fst d1"
    using vs by (rule validate_sections_keys)
  have others: "map_of d2 k = map_of d1 k" if "k \<notin> set ts" for k
    using vs that by (rule validate_sections_others)
  have initial: "\<exists>dd. map_of d1 s = Some (VDict dd)" if "s \<in> set ts" for s
    using vs that by (rule validate_sections_initial)
  have final: "\<exists>w tsec res. first_named t_section ''section'' s ?secs = Inr tsec
      \<and> validate_node w tsec = Inr res \<and> map_of d2 s = Some res" if "s \<in> set ts" for s
    using vs that by (rule validate_sections_final)
  have final_dict: "\<exists>sub. map_of d2 s = Some (VDict sub)" if "s \<in> set ts" for s
    using final [OF that] by (metis validate_node_Inr)
  \<comment> \<open>a keyword of the input keeps its value\<close>
  have kept: "k \<notin> set ts \<and> map_of d2 k = map_of ?d k" if "k \<in> set ik" for k
  proof -
    from that ik obtain w where w: "map_of ?d k = Some w" "type_name w \<noteq> ''dict''"
      by (auto simp: input_keywords_iff)
    from that missing have "map_of d1 k = map_of ?d k" by (simp add: d1)
    with w initial [of k] have "k \<notin> set ts" by auto
    with others [of k] \<open>map_of d1 k = map_of ?d k\<close> show ?thesis by simp
  qed
  \<comment> \<open>a keyword that was filled in holds its default\<close>
  have filled: "k \<notin> set ts \<and> map_of d2 k = default_of kws k" if "k \<in> set ?missing" for k
  proof -
    from dflt [OF that] obtain w ty where w: "default_of kws k = Some w"
      "type_matches w ty = Inr True" by blast
    then have "type_name w \<noteq> ''dict''" by (simp add: type_matches_not_dict)
    moreover from that have "map_of d1 k = default_of kws k" by (simp add: d1)
    ultimately have "k \<notin> set ts" using w initial [of k] by auto
    with others [of k] \<open>map_of d1 k = default_of kws k\<close> show ?thesis by simp
  qed
  have ik2: "set (input_keywords_of d2) = set tk"
  proof (intro equalityI subsetI)
    fix k assume "k \<in> set (input_keywords_of d2)"
    then obtain w where w: "map_of d2 k = Some w" "type_name w \<noteq> ''dict''"
      by (auto simp: input_keywords_iff)
    with final_dict [of k] have nts: "k \<notin> set ts" by auto
    show "k \<in> set tk"
    proof (cases "k \<in> set ?missing")
      case True
      then show ?thesis by (simp add: missing)
    next
      case False
      with w others [OF nts] d1 [of k] have "k \<in> set (input_keywords_of ?d)"
        by (auto simp: input_keywords_iff)
      with U ik show ?thesis by auto
    qed
  next
    fix k assume k: "k \<in> set tk"
    show "k \<in> set (input_keywords_of d2)"
    proof (cases "k \<in> set ik")
      case True
      with kept [OF True] ik show ?thesis by (auto simp: input_keywords_iff)
    next
      case False
      with k have m: "k \<in> set ?missing" by (simp add: missing)
      from dflt [OF m] obtain w ty where "default_of kws k = Some w"
        "type_matches w ty = Inr True" by blast
      with filled [OF m] show ?thesis
        by (auto simp: input_keywords_iff dest: type_matches_not_dict)
    qed
  qed
  have is2: "set (input_sections_of d2) \<subseteq> set ts"
  proof
    fix k assume "k \<in> set (input_sections_of d2)"
    then obtain w where w: "map_of d2 k = Some w" "type_name w = ''dict''"
      by (auto simp: input_sections_iff)
    show "k \<in> set ts"
    proof (rule ccontr)
      assume nts: "k \<notin> set ts"
      show False
      proof (cases "k \<in> set ?missing")
        case True
        from dflt [OF True] obtain w' ty where "default_of kws k = Some w'"
          "type_matches w' ty = Inr True" by blast
        with filled [OF True] w show False
          by (auto dest: type_matches_not_dict)
      next
        case False
        with w others [OF nts] d1 [of k] have "k \<in> set (input_sections_of ?d)"
          by (auto simp: input_sections_iff)
        with S nts show False by auto
      qed
    qed
  qed
  have cs2: "check_shape d2 t = Inr (input_keywords_of d2, tk, ts)"
    unfolding check_shape_eq [OF tl] using ik2 is2 M U by auto
  have ct2: "check_types d2 kws (input_keywords_of d2) = Inr ()"
    unfolding check_types_Inr_iff
  proof
    fix k assume "k \<in> set (input_keywords_of d2)"
    with ik2 have k: "k \<in> set tk" by simp
    show "\<exists>spec ty w. first_named kw_keyword ''keyword'' k kws = Inr spec
        \<and> kw_type spec = Some ty \<and> map_of d2 k = Some w \<and> type_matches w ty = Inr True"
    proof (cases "k \<in> set ik")
      case True
      with ct kept [OF True] show ?thesis by (auto simp: check_types_Inr_iff)
    next
      case False
      with k have m: "k \<in> set ?missing" by (simp add: missing)
      from dflt [OF m] filled [OF m] show ?thesis by auto
    qed
  qed
  have cd2: "check_dict d2 t = Inr (input_keywords_of d2, tk, ts)"
    by (simp add: check_dict_def cs2 kws ct2)
  have m2: "missing_keywords tk (input_keywords_of d2) = []"
    by (simp add: missing_keywords_def ik2)
  have vs2: "validate_sections ?secs ts d2 = Inr d2"
  proof (rule validate_sections_fixed, rule ballI)
    fix s assume "s \<in> set ts"
    from final [OF this] obtain w tsec res where
      f: "first_named t_section ''section'' s ?secs = Inr tsec"
      and vn: "validate_node w tsec = Inr res" and m: "map_of d2 s = Some res" by blast
    from first_named_Inr [OF f] have mem: "tsec \<in> set ?secs" by simp
    then have "size tsec < size t"
      by (cases t) (auto simp: the_list_def split: option.splits
          dest!: size_list_estimation' [where f = size and y = "size tsec"])
    moreover from mem less.prems(1) have "defaults_well_typed tsec"
      by (cases t) (auto simp: the_list_def list_all_iff split: option.splits)
    ultimately have "validate_node res tsec = Inr res"
      using less.IH vn by blast
    with f m show "\<exists>r tsec. map_of d2 s = Some r
        \<and> first_named t_section ''section'' s ?secs = Inr tsec \<and> validate_node r tsec = Inr r"
      by blast
  qed
  show ?case
    by (simp add: r validate_node.simps cd2 m2 vs2)
qed


text \<open>
  C4 (amended).  For a template in which every default matches the declared type of
  its keyword, and an input tree held by value (no dictionary object occurs in it
  twice): when \<open>validate_node\<close> returns the merged tree \<open>M\<close>, then \<open>validate_node\<close>
  on \<open>M\<close> and the same template returns \<open>M\<close> again.
\<close>

theorem validate_node_idempotent:
  assumes "defaults_well_typed template_dict"
      and "validate_node input_dict template_dict = Inr merged"
  shows "validate_node merged template_dict = Inr merged"
  using assms by (rule merged_tree_is_fixed)

text \<open>
  C4 as stated fails: defaults are stored unchecked, so with the keyword \<open>n\<close> declared
  \<open>float\<close> and the default \<open>0\<close> the empty input is merged to \<open>{'n': 0}\<close>, and the
  second run rejects that value.
\<close>

theorem validate_node_idempotent_counterexample:
  "validate_node (VDict (PyDict []))
     (TNode None (Some [KwSpec (Some ''n'') (Some ''float'') (Some (VInt 0)) (Some ''doc'') None])
        None)
   = Inr (VDict (PyDict [(''n'', VInt 0)]))
   \<and> validate_node (VDict (PyDict [(''n'', VInt 0)]))
     (TNode None (Some [KwSpec (Some ''n'') (Some ''float'') (Some (VInt 0)) (Some ''doc'') None])
        None)
   = Inl (InputError (IncorrectType ''n'' ''float''))"
  by (simp add: eval_defs)

theorem validate_node_idempotent_witness:
  "defaults_well_typed
     (TNode None (Some [KwSpec (Some ''a'') (Some ''int'') (Some (VInt 1)) (Some ''doc'') None])
        (Some [TNode (Some ''scf'')
                 (Some [KwSpec (Some ''b'') (Some ''str'') (Some (VStr ''x'')) (Some ''doc'') None])
                 None]) :: pydict tnode)
   \<and> validate_node (VDict (PyDict [(''scf'', VDict (PyDict []))]))
     (TNode None (Some [KwSpec (Some ''a'') (Some ''int'') (Some (VInt 1)) (Some ''doc'') None])
        (Some [TNode (Some ''scf'')
                 (Some [KwSpec (Some ''b'') (Some ''str'') (Some (VStr ''x'')) (Some ''doc'') None])
                 None]))
   = Inr (VDict (PyDict [(''scf'', VDict (PyDict [(''b'', VStr ''x'')])), (''a'', VInt 1)]))
   \<and> validate_node
     (VDict (PyDict [(''scf'', VDict (PyDict [(''b'', VStr ''x'')])), (''a'', VInt 1)]))
     (TNode None (Some [KwSpec (Some ''a'') (Some ''int'') (Some (VInt 1)) (Some ''doc'') None])
        (Some [TNode (Some ''scf'')
                 (Some [KwSpec (Some ''b'') (Some ''str'') (Some (VStr ''x'')) (Some ''doc'') None])
                 None]))
   = Inr (VDict (PyDict [(''scf'', VDict (PyDict [(''b'', VStr ''x'')])), (''a'', VInt 1)]))"
proof -
  let ?t = "TNode None (Some [KwSpec (Some ''a'') (Some ''int'') (Some (VInt 1)) (Some ''doc'') None])
        (Some [TNode (Some ''scf'')
                 (Some [KwSpec (Some ''b'') (Some ''str'') (Some (VStr ''x'')) (Some ''doc'') None])
                 None]) :: pydict tnode"
  have w: "defaults_well_typed ?t"
    by (simp add: default_matches_def the_list_def type_matches_def allowed_types_eq
        list_element_type_def)
  have run: "validate_node (VDict (PyDict [(''scf'', VDict (PyDict []))])) ?t
      = Inr (VDict (PyDict [(''scf'', VDict (PyDict [(''b'', VStr ''x'')])), (''a'', VInt 1)]))"
    by (simp add: eval_defs)
  show ?thesis
    using w run validate_node_idempotent [OF w run] by simp
qed

text \<open>
  The input tree has to be held by value: on the store model, when one dictionary
  object sits under two section names, the defaults of both sections end up in it,
  and a second run finds a keyword one of the sections does not expect, although
  every default has the declared type.
\<close>

lemma shared_dictionary_second_run:
  "validate_node_st (VDict 0)
     (TNode None (Some [])
        (Some [TNode (Some ''A'')
                 (Some [KwSpec (Some ''x'') (Some ''int'') (Some (VInt 1)) (Some ''doc'') None])
                 None,
               TNode (Some ''B'')
                 (Some [KwSpec (Some ''x'') (Some ''int'') (Some (VInt 2)) (Some ''doc'') None,
                        KwSpec (Some ''y'') (Some ''int'') (Some (VInt 3)) (Some ''doc'') None])
                 None]))
     (empty_store(0 := [(''A'', VDict 1), (''B'', VDict 1)]))
   = (Inr (VDict 0),
      empty_store(0 := [(''A'', VDict 1), (''B'', VDict 1)],
                  1 := [(''x'', VInt 1), (''y'', VInt 3)]))
   \<and> fst (validate_node_st (VDict 0)
     (TNode None (Some [])
        (Some [TNode (Some ''A'')
                 (Some [KwSpec (Some ''x'') (Some ''int'') (Some (VInt 1)) (Some ''doc'') None])
                 None,
               TNode (Some ''B'')
                 (Some [KwSpec (Some ''x'') (Some ''int'') (Some (VInt 2)) (Some ''doc'') None,
                        KwSpec (Some ''y'') (Some ''int'') (Some (VInt 3)) (Some ''doc'') None])
                 None]))
     (empty_store(0 := [(''A'', VDict 1), (''B'', VDict 1)],
                  1 := [(''x'', VInt 1), (''y'', VInt 3)])))
   = Inl (InputError (UnexpectedKeywords {''y''}))"
  by (simp add: validate_node_st.simps eval_defs empty_store_def fun_upd_twist)

section \<open>The store model follows the model by value\<close>

subsection \<open>Plain values and templates in the store\<close>

lemma type_name_map_val [simp]: "type_name (map_val f v) = type_name v"
  by (cases v) simp_all

lemma type_matches_map_val [simp]: "type_matches (map_val f v) ty = type_matches v ty"
  by (cases v) (simp_all add: type_matches_def list_all_iff split: option.splits)

lemma list_getitem_map_val:
  "list_getitem (map (map_val f) xs) (map_val f x) = map_sum id (map_val f) (list_getitem xs x)"
proof (cases x)
  case (VInt i)
  have "nat (i mod int (length xs)) < length xs" if "- int (length xs) \<le> i" "i < int (length xs)"
  proof -
    from that have "0 < int (length xs)" by linarith
    then have "0 \<le> i mod int (length xs)" "i mod int (length xs) < int (length xs)"
      by simp_all
    then show ?thesis by linarith
  qed
  with VInt show ?thesis by simp
qed auto

lemma first_error_map_sum:
  "first_error (map (map_sum id g) rs) = first_error rs"
  by (induction rs rule: first_error.induct) simp_all

lemma non_dict_error_map_val [simp]: "non_dict_error (map_val f v) = non_dict_error v"
proof (cases v)
  case (VList xs)
  have "map (list_getitem (map (map_val f) xs)) (map (map_val f) xs)
      = map (map_sum id (map_val f)) (map (list_getitem xs) xs)"
    by (simp add: list_getitem_map_val)
  then have "first_error (map (list_getitem (map (map_val f) xs)) (map (map_val f) xs))
      = first_error (map (list_getitem xs) xs)"
    by (simp only: first_error_map_sum)
  with VList show ?thesis
    by (simp add: non_dict_error_def del: map_map)
qed (simp_all add: non_dict_error_def)

lemma plain_not_dict: "plain p \<Longrightarrow> type_name p \<noteq> ''dict''"
  by (cases p) simp_all

subsection \<open>Dictionaries that hold a tree\<close>

lemma tree_type_name:
  assumes "tree h v p A"
  shows "type_name v = type_name p"
  using assms by (cases rule: tree.cases) (auto simp: in_store_def)

lemma tree_type_matches:
  assumes "tree h v p A"
  shows "type_matches v ty = type_matches p ty"
  using assms
proof (cases rule: tree.cases)
  case tree_plain
  then show ?thesis by (simp add: in_store_def)
next
  case (tree_dict a d A)
  then show ?thesis by (simp add: type_matches_def split: option.splits)
qed


lemma entries_keys: "entries h es d A \<Longrightarrow> map fst es = map fst d"
  by (induction es d A rule: tree_entries.inducts(2) [where ?P1.0 = "\<lambda>v p A. True"])
     simp_all

lemma entries_map_of_None: "entries h es d A \<Longrightarrow> map_of es k = None \<longleftrightarrow> map_of d k = None"
  by (drule entries_keys) (metis map_of_eq_None_iff set_map)

lemma entries_map_of_Some:
  "entries h es d A \<Longrightarrow> map_of d k = Some p \<Longrightarrow>
   \<exists>v B. map_of es k = Some v \<and> tree h v p B \<and> B \<subseteq> A"
proof (induction es d A rule: tree_entries.inducts(2) [where ?P1.0 = "\<lambda>v p A. tree h v p A"])
  case (tree_plain p)
  then show ?case by (rule tree_entries.intros(1))
next
  case (tree_dict a d A)
  then show ?case by (simp add: tree_entries.intros(2))
next
  case entries_nil
  then show ?case by simp
next
  case (entries_cons v q A es ps B k')
  then show ?case by (auto split: if_splits)
qed

lemma entries_sections: 
  assumes "entries h es d A"
  shows "input_sections_of es = input_sections_of d"
proof -
  have "(case map_of es x of Some v \<Rightarrow> type_name v = ''dict'' | None \<Rightarrow> False)
      = (case map_of d x of Some v \<Rightarrow> type_name v = ''dict'' | None \<Rightarrow> False)" for x
  proof (cases "map_of d x")
    case None
    with entries_map_of_None [OF assms, of x] show ?thesis by simp
  next
    case (Some p)
    from entries_map_of_Some [OF assms Some] show ?thesis
      using Some by (auto dest: tree_type_name)
  qed
  then show ?thesis
    by (simp add: input_sections_of_def entries_keys [OF assms])
qed

lemma entries_keywords:
  "entries h es d A \<Longrightarrow> input_keywords_of es = input_keywords_of d"
  by (simp add: input_keywords_of_def entries_sections entries_keys)

subsection \<open>The checks read the same on both sides\<close>

lemma subscripts_map: "subscripts g key (map m xs) = subscripts (\<lambda>x. g (m x)) key xs"
  by (induction xs) (simp_all split: option.splits)

lemma first_named_map:
  "first_named g key n (map m xs) = map_sum id m (first_named (\<lambda>x. g (m x)) key n xs)"
  by (simp add: first_named_def subscripts_map filter_map comp_def
      split: sum.splits list.splits)

lemma first_named_keyword_store [simp]:
  "first_named kw_keyword key n (map (map_kwspec f) kws)
     = map_sum id (map_kwspec f) (first_named kw_keyword key n kws)"
  by (simp add: first_named_map kwspec.map_sel)

lemma first_named_section_store [simp]:
  "first_named t_section key n (map (map_tnode f) secs)
     = map_sum id (map_tnode f) (first_named t_section key n secs)"
  by (simp add: first_named_map tnode.map_sel)

lemma no_documentation_store [simp]: "no_documentation (map_kwspec f x) = no_documentation x"
  by (simp add: no_documentation_def kwspec.map_sel)

lemma template_lists_store:
  "template_lists (map_tnode f t)
     = map_sum id (\<lambda>(ts, tk, kws). (ts, tk, map (map_kwspec f) kws)) (template_lists t)"
  by (cases t)
     (simp add: template_lists_def subscripts_map tnode.map_sel kwspec.map_sel filter_map
        comp_def split: option.splits sum.splits)

lemma check_shape_store:
  assumes "entries h es d A"
  shows "check_shape es (map_tnode f t) = check_shape d t"
proof (cases "template_lists t")
  case (Inl e)
  then show ?thesis
    by (simp add: check_shape_def template_lists_store)
next
  case (Inr res)
  obtain ts tk kws where "res = (ts, tk, kws)" by (cases res)
  with Inr show ?thesis
    by (simp add: check_shape_def template_lists_store entries_sections [OF assms]
        entries_keywords [OF assms] subscripts_map filter_map comp_def kwspec.map_sel Let_def)
qed

lemma check_types_store:
  assumes "entries h es d A"
  shows "check_types es (map (map_kwspec f) kws) ks = check_types d kws ks"
proof (induction ks)
  case Nil
  show ?case by simp
next
  case (Cons k ks)
  show ?case
  proof (cases "map_of d k")
    case None
    with entries_map_of_None [OF assms, of k] Cons show ?thesis
      by (simp add: kwspec.map_sel split: sum.splits option.splits)
  next
    case (Some p)
    from entries_map_of_Some [OF assms Some] obtain v B where
      "map_of es k = Some v" "tree h v p B" by blast
    with Some Cons tree_type_matches [of h v p B] show ?thesis
      by (simp add: kwspec.map_sel split: sum.splits option.splits)
  qed
qed

lemma the_list_keywords_store [simp]:
  "the_list (t_keywords (map_tnode f t)) = map (map_kwspec f) (the_list (t_keywords t))"
  by (cases t) (simp add: the_list_def split: option.splits)

lemma the_list_sections_store [simp]:
  "the_list (t_sections (map_tnode f t)) = map (map_tnode f) (the_list (t_sections t))"
  by (cases t) (simp add: the_list_def split: option.splits)

lemma check_dict_store:
  assumes "entries h es d A"
  shows "check_dict es (map_tnode f t) = check_dict d t"
  by (simp add: check_dict_def check_shape_store [OF assms] check_types_store [OF assms]
      split: sum.splits)


subsection \<open>Changes elsewhere in the store\<close>

lemma frame:
  "tree h v p A \<Longrightarrow> (\<forall>b \<in> A. h' b = h b) \<Longrightarrow> tree h' v p A"
  "entries h es d A \<Longrightarrow> (\<forall>b \<in> A. h' b = h b) \<Longrightarrow> entries h' es d A"
proof (induction v p A and es d A rule: tree_entries.inducts)
  case (tree_plain p)
  then show ?case by (simp add: tree_entries.intros(1))
next
  case (tree_dict a d A)
  then have "entries h' (h' a) d A" and "a \<notin> A" by simp_all
  then show ?case by (rule tree_entries.intros(2))
next
  case entries_nil
  show ?case by (rule tree_entries.intros(3))
next
  case (entries_cons v p A es ps B k)
  then show ?case by (simp add: tree_entries.intros(4))
qed

lemma entries_update_plain:
  "entries h es d A \<Longrightarrow> plain p \<Longrightarrow>
   \<exists>A'. A' \<subseteq> A \<and> entries h (AList.update k (in_store p) es) (AList.update k p d) A'"
proof (induction es d A rule: tree_entries.inducts(2) [where ?P1.0 = "\<lambda>v p A. True"])
  case entries_nil
  have "entries h [(k, in_store p)] [(k, p)] ({} \<union> {})"
    using entries_nil by (intro tree_entries.intros) simp_all
  then show ?case by auto
next
  case (entries_cons v q A es ps B k')
  show ?case
  proof (cases "k' = k")
    case True
    have "entries h ((k, in_store p) # es) ((k, p) # ps) ({} \<union> B)"
      using entries_cons by (intro tree_entries.intros) simp_all
    with True show ?thesis by auto
  next
    case False
    from entries_cons obtain B' where B': "B' \<subseteq> B"
      "entries h (AList.update k (in_store p) es) (AList.update k p ps) B'" by blast
    with entries_cons have "entries h ((k', v) # AList.update k (in_store p) es)
        ((k', q) # AList.update k p ps) (A \<union> B')"
      by (intro tree_entries.intros) auto
    with False B' show ?thesis by (auto intro!: exI [of _ "A \<union> B'"])
  qed
qed simp_all

lemma entries_section:
  "entries h es d A \<Longrightarrow> map_of d s = Some p \<Longrightarrow>
   \<exists>v B. map_of es s = Some v \<and> tree h v p B \<and> B \<subseteq> A
     \<and> (\<forall>h' p' B'. (\<forall>b. b \<notin> B \<longrightarrow> h' b = h b) \<longrightarrow> tree h' v p' B' \<longrightarrow> B' \<subseteq> B \<longrightarrow>
          (\<exists>A'. A' \<subseteq> A \<and> entries h' es (AList.update s p' d) A'))"
proof (induction es d A rule: tree_entries.inducts(2) [where ?P1.0 = "\<lambda>v p A. tree h v p A"])
  case (tree_plain p)
  then show ?case by (rule tree_entries.intros(1))
next
  case (tree_dict a d A)
  then show ?case by (simp add: tree_entries.intros(2))
next
  case entries_nil
  then show ?case by simp
next
  case (entries_cons v q A es ps B k)
  from entries_cons have tv: "tree h v q A" and en: "entries h es ps B" and dj: "A \<inter> B = {}"
    by simp_all
  show ?case
  proof (cases "k = s")
    case True
    with entries_cons.prems have q: "q = p" by simp
    have "\<exists>A'. A' \<subseteq> A \<union> B \<and> entries h' ((k, v) # es) (AList.update s p' ((k, q) # ps)) A'"
      if fr: "\<forall>b. b \<notin> A \<longrightarrow> h' b = h b" and t: "tree h' v p' B'" and sub: "B' \<subseteq> A"
      for h' p' B'
    proof -
      from en dj fr have "entries h' es ps B"
        by (intro frame(2) [of h es ps B h']) auto
      with t have "entries h' ((k, v) # es) ((k, p') # ps) (B' \<union> B)"
        using sub dj by (intro tree_entries.intros) auto
      with True sub show ?thesis by (auto intro!: exI [of _ "B' \<union> B"])
    qed
    with True q tv show ?thesis
      by (intro exI [of _ v] exI [of _ A]) auto
  next
    case False
    with entries_cons.prems have "map_of ps s = Some p" by simp
    with entries_cons obtain w C where w: "map_of es s = Some w"
      "tree h w p C" "C \<subseteq> B"
      and ctx: "\<And>h' p' B'. (\<forall>b. b \<notin> C \<longrightarrow> h' b = h b) \<Longrightarrow> tree h' w p' B' \<Longrightarrow> B' \<subseteq> C
        \<Longrightarrow> \<exists>A'. A' \<subseteq> B \<and> entries h' es (AList.update s p' ps) A'"
      by blast
    have "\<exists>A'. A' \<subseteq> A \<union> B \<and> entries h' ((k, v) # es) (AList.update s p' ((k, q) # ps)) A'"
      if fr: "\<forall>b. b \<notin> C \<longrightarrow> h' b = h b" and t: "tree h' w p' B'" and sub: "B' \<subseteq> C"
      for h' p' B'
    proof -
      from ctx [OF fr t sub] obtain A' where A': "A' \<subseteq> B" "entries h' es (AList.update s p' ps) A'"
        by blast
      from tv dj w(3) fr have "tree h' v q A"
        by (intro frame(1) [of h v q A h']) auto
      with A' dj have "entries h' ((k, v) # es) ((k, q) # AList.update s p' ps)
          (A \<union> A')"
        by (intro tree_entries.intros) auto
      with False A' show ?thesis by (auto intro!: exI [of _ "A \<union> A'"])
    qed
    with False w show ?thesis
      by (intro exI [of _ w] exI [of _ C]) auto
  qed
qed


subsection \<open>The two loops\<close>

lemma fill_defaults_store:
  assumes "\<forall>x \<in> set kws. case kw_default x of None \<Rightarrow> True | Some v \<Rightarrow> plain v"
  shows "entries h es d A \<Longrightarrow>
   \<exists>A'. A' \<subseteq> A
     \<and> fst (fill_defaults (map (map_kwspec (\<lambda>d. 0)) kws) ks es) = fst (fill_defaults kws ks d)
     \<and> entries h (snd (fill_defaults (map (map_kwspec (\<lambda>d. 0)) kws) ks es))
          (snd (fill_defaults kws ks d)) A'"
proof (induction ks arbitrary: es d A)
  case Nil
  then show ?case by auto
next
  case (Cons k ks)
  show ?case
  proof (cases "first_named kw_keyword ''keyword'' k kws")
    case (Inl e)
    with Cons.prems show ?thesis by auto
  next
    case (Inr spec)
    then have mem: "spec \<in> set kws" by (simp add: first_named_Inr)
    show ?thesis
    proof (cases "kw_default spec")
      case None
      with Inr Cons.prems show ?thesis by (auto simp: kwspec.map_sel)
    next
      case (Some p)
      with mem assms have "plain p" by force
      from entries_update_plain [OF Cons.prems this, of k] obtain A1 where
        A1: "A1 \<subseteq> A" "entries h (AList.update k (in_store p) es) (AList.update k p d) A1"
        by blast
      from Cons.IH [OF A1(2)] obtain A' where "A' \<subseteq> A1"
        "fst (fill_defaults (map (map_kwspec (\<lambda>d. 0)) kws) ks (AList.update k (in_store p) es))
           = fst (fill_defaults kws ks (AList.update k p d))"
        "entries h (snd (fill_defaults (map (map_kwspec (\<lambda>d. 0)) kws) ks
                          (AList.update k (in_store p) es)))
           (snd (fill_defaults kws ks (AList.update k p d))) A'"
        by blast
      with A1(1) Inr Some show ?thesis
        by (intro exI [of _ A']) (auto simp: kwspec.map_sel in_store_def)
    qed
  qed
qed

lemma sections_simulate:
  assumes sub: "\<And>tsec h v p A. tsec \<in> set secs \<Longrightarrow> tree h v p A \<Longrightarrow> simulates h v p A tsec"
  shows "entries h (h a) d A \<Longrightarrow> a \<notin> A \<Longrightarrow>
    (case validate_sections secs names d of
       Inl e \<Rightarrow> fst (validate_sections_st a (map store_template secs) names h) = Inl e
     | Inr d' \<Rightarrow>
         (\<exists>h' A'. validate_sections_st a (map store_template secs) names h = (Inr (), h')
            \<and> entries h' (h' a) d' A' \<and> A' \<subseteq> A \<and> (\<forall>b. b \<notin> A \<longrightarrow> h' b = h b)))"
proof (induction names arbitrary: h d A)
  case Nil
  then show ?case by auto
next
  case (Cons s names)
  show ?case
  proof (cases "map_of d s")
    case None
    with entries_map_of_None [OF Cons.prems(1), of s] show ?thesis by simp
  next
    case (Some p)
    from entries_section [OF Cons.prems(1) Some] obtain v B where v: "map_of (h a) s = Some v"
      and t: "tree h v p B" and B: "B \<subseteq> A"
      and ctx: "\<And>h' p' B'. (\<forall>b. b \<notin> B \<longrightarrow> h' b = h b) \<Longrightarrow> tree h' v p' B' \<Longrightarrow> B' \<subseteq> B
        \<Longrightarrow> \<exists>A'. A' \<subseteq> A \<and> entries h' (h a) (AList.update s p' d) A'"
      by blast
    show ?thesis
    proof (cases "first_named t_section ''section'' s secs")
      case (Inl e)
      with Some v show ?thesis by (simp add: store_template_def)
    next
      case (Inr tsec)
      then have "tsec \<in> set secs" by (simp add: first_named_Inr)
      from sub [OF this t] have sim: "simulates h v p B tsec" .
      have fn: "first_named t_section ''section'' s (map store_template secs)
          = Inr (store_template tsec)"
        using Inr by (simp add: store_template_def)
      show ?thesis
      proof (cases "validate_node p tsec")
        case (Inl e)
        with sim have "fst (validate_node_st v (store_template tsec) h) = Inl e"
          by (simp add: simulates_def)
        then obtain h1 where "validate_node_st v (store_template tsec) h = (Inl e, h1)"
          by (cases "validate_node_st v (store_template tsec) h") simp
        with Some v Inr fn Inl show ?thesis
          by simp
      next
        case (Inr p')
        with sim obtain h1 B' where run: "validate_node_st v (store_template tsec) h = (Inr v, h1)"
          and t1: "tree h1 v p' B'" and B': "B' \<subseteq> B"
          and fr: "\<forall>b. b \<notin> B \<longrightarrow> h1 b = h b"
          by (auto simp: simulates_def)
        from fr B Cons.prems(2) have a: "h1 a = h a" by auto
        from ctx [OF fr t1 B'] obtain A1 where A1: "A1 \<subseteq> A"
          "entries h1 (h a) (AList.update s p' d) A1" by blast
        have same: "h1(a := AList.update s v (h1 a)) = h1"
          using a v by (simp add: update_triv fun_upd_idem)
        from A1 a Cons.prems(2) have "entries h1 (h1 a) (AList.update s p' d) A1" "a \<notin> A1"
          by auto
        from Cons.IH [OF this] have rest:
          "case validate_sections secs names (AList.update s p' d) of
             Inl e \<Rightarrow> fst (validate_sections_st a (map store_template secs) names h1) = Inl e
           | Inr d' \<Rightarrow>
               (\<exists>h' A'. validate_sections_st a (map store_template secs) names h1 = (Inr (), h')
                  \<and> entries h' (h' a) d' A' \<and> A' \<subseteq> A1 \<and> (\<forall>b. b \<notin> A1 \<longrightarrow> h' b = h1 b))" .
        have pure: "validate_sections secs (s # names) d
            = validate_sections secs names (AList.update s p' d)"
          using Some \<open>first_named t_section ''section'' s secs = Inr tsec\<close> Inr by simp
        have st: "validate_sections_st a (map store_template secs) (s # names) h
            = validate_sections_st a (map store_template secs) names h1"
          using v fn run same by simp
        show ?thesis
        proof (cases "validate_sections secs names (AList.update s p' d)")
          case (Inl e)
          with rest pure st show ?thesis by simp
        next
          case (Inr d')
          with rest obtain h' A' where
            r: "validate_sections_st a (map store_template secs) names h1 = (Inr (), h')"
            "entries h' (h' a) d' A'" "A' \<subseteq> A1" "\<forall>b. b \<notin> A1 \<longrightarrow> h' b = h1 b"
            by auto
          have "\<forall>b. b \<notin> A \<longrightarrow> h' b = h b"
            using r(4) fr A1(1) B by (metis subsetD)
          with r A1(1) Inr pure st show ?thesis
            by (auto intro!: exI [of _ h'] exI [of _ A'])
        qed
      qed
    qed
  qed
qed


lemma validate_node_plain:
  assumes "plain p"
  shows "validate_node p t = Inl (non_dict_error p)"
    and "validate_node_st (in_store p) t' h = (Inl (non_dict_error p), h)"
proof -
  show "validate_node p t = Inl (non_dict_error p)"
    using assms by (cases p) (simp_all add: validate_node.simps)
  have "non_dict_error (in_store p) = non_dict_error p"
    by (simp add: in_store_def)
  moreover have "validate_node_st (in_store p) t' h = (Inl (non_dict_error (in_store p)), h)"
    using assms by (cases p) (simp_all add: validate_node_st.simps in_store_def)
  ultimately show "validate_node_st (in_store p) t' h = (Inl (non_dict_error p), h)"
    by simp
qed

text \<open>
  On a store that holds the input tree, with a template whose defaults are plain
  values, \<open>validate_node\<close> of the store model raises the exception the model by
  value raises, or returns its argument with the store holding the merged tree of
  the model by value, in dictionaries of the input tree; it changes nothing else.
\<close>

lemma store_model_simulates:
  assumes "plain_defaults t" and "tree h v p A"
  shows "simulates h v p A t"
  using assms
proof (induction t arbitrary: h v p A rule: measure_induct_rule [where f = size])
  case (less t)
  let ?kws = "the_list (t_keywords t)"
  let ?secs = "the_list (t_sections t)"
  from less.prems(2) show ?case
  proof (cases rule: tree.cases)
    case tree_plain
    then show ?thesis
      by (simp add: simulates_def validate_node_plain)
  next
    case (tree_dict a d A0)
    note [simp] = \<open>v = VDict a\<close> \<open>p = VDict (PyDict d)\<close>
    have cd: "check_dict (h a) (store_template t) = check_dict d t"
      unfolding store_template_def using tree_dict(4) by (rule check_dict_store)
    show ?thesis
    proof (cases "check_dict d t")
      case (Inl e)
      with cd show ?thesis
        by (simp add: simulates_def validate_node.simps validate_node_st.simps)
    next
      case (Inr res)
      obtain ik tk ts where res: "res = (ik, tk, ts)" by (cases res)
      have pk: "\<forall>x \<in> set ?kws. case kw_default x of None \<Rightarrow> True | Some v \<Rightarrow> plain v"
        using less.prems(1) by (cases t) (simp add: list_all_iff)
      from fill_defaults_store [OF pk tree_dict(4), of "missing_keywords tk ik"]
      obtain A1 where A1: "A1 \<subseteq> A0"
        and feq: "fst (fill_defaults (map (map_kwspec (\<lambda>d. 0)) ?kws) (missing_keywords tk ik) (h a))
                    = fst (fill_defaults ?kws (missing_keywords tk ik) d)"
        and fen: "entries h (snd (fill_defaults (map (map_kwspec (\<lambda>d. 0)) ?kws)
                                    (missing_keywords tk ik) (h a)))
                    (snd (fill_defaults ?kws (missing_keywords tk ik) d)) A1"
        by blast
      obtain u d1 where fd: "fill_defaults ?kws (missing_keywords tk ik) d = (u, d1)" by force
      obtain u' es1 where fds: "fill_defaults (the_list (t_keywords (store_template t)))
          (missing_keywords tk ik) (h a) = (u', es1)" by force
      from feq fen fd fds have u': "u' = u" and en1: "entries h es1 d1 A1"
        by (simp_all add: store_template_def)
      show ?thesis
      proof (cases u)
        case (Inl e)
        with cd Inr res fd fds u' show ?thesis
          by (simp add: simulates_def validate_node.simps validate_node_st.simps)
      next
        case (Inr unit)
        let ?h1 = "h(a := es1)"
        from A1 tree_dict(5) have a1: "a \<notin> A1" by auto
        have "entries ?h1 es1 d1 A1"
          using en1 a1 by (rule_tac frame(2) [of h]) auto
        then have en1': "entries ?h1 (?h1 a) d1 A1" by simp
        have sub: "simulates h' v' p' A' tsec"
          if "tsec \<in> set ?secs" "tree h' v' p' A'" for tsec h' v' p' A'
        proof -
          from that(1) have "size tsec < size t"
            by (cases t) (auto simp: the_list_def split: option.splits
                dest!: size_list_estimation' [where f = size and y = "size tsec"])
          moreover from that(1) less.prems(1) have "plain_defaults tsec"
            by (cases t) (auto simp: the_list_def list_all_iff split: option.splits)
          ultimately show ?thesis using less.IH that(2) by blast
        qed
        from sections_simulate [of ?secs ?h1 a d1 A1 ts, OF sub en1' a1]
        have loop: "case validate_sections ?secs ts d1 of
             Inl e \<Rightarrow> fst (validate_sections_st a (map store_template ?secs) ts ?h1) = Inl e
           | Inr d' \<Rightarrow>
               (\<exists>h' A'. validate_sections_st a (map store_template ?secs) ts ?h1 = (Inr (), h')
                  \<and> entries h' (h' a) d' A' \<and> A' \<subseteq> A1 \<and> (\<forall>b. b \<notin> A1 \<longrightarrow> h' b = ?h1 b))"
          by simp
        have secs: "the_list (t_sections (store_template t)) = map store_template ?secs"
          by (simp add: store_template_def)
        have pure: "validate_node p t
            = (case validate_sections ?secs ts d1 of Inl e \<Rightarrow> Inl e
               | Inr d2 \<Rightarrow> Inr (VDict (PyDict d2)))"
          using \<open>check_dict d t = Inr res\<close> res fd Inr by (simp add: validate_node.simps)
        have st: "validate_node_st v (store_template t) h
            = (case validate_sections_st a (map store_template ?secs) ts ?h1 of
                 (Inl e, h') \<Rightarrow> (Inl e, h') | (Inr _, h') \<Rightarrow> (Inr (VDict a), h'))"
          using cd \<open>check_dict d t = Inr res\<close> res fds u' Inr secs
          by (simp add: validate_node_st.simps)
        show ?thesis
        proof (cases "validate_sections ?secs ts d1")
          case (Inl e)
          with loop obtain h' where
            "validate_sections_st a (map store_template ?secs) ts ?h1 = (Inl e, h')"
            by (cases "validate_sections_st a (map store_template ?secs) ts ?h1") simp
          with Inl pure st show ?thesis by (simp add: simulates_def)
        next
          case (Inr d2)
          with loop obtain h2 A2 where
            r: "validate_sections_st a (map store_template ?secs) ts ?h1 = (Inr (), h2)"
            and en2: "entries h2 (h2 a) d2 A2" and A2: "A2 \<subseteq> A1"
            and fr: "\<forall>b. b \<notin> A1 \<longrightarrow> h2 b = ?h1 b"
            by auto
          from A2 a1 have "a \<notin> A2" by auto
          with en2 have T: "tree h2 (VDict a) (VDict (PyDict d2)) (insert a A2)"
            by (rule tree_entries.intros(2))
          have S: "insert a A2 \<subseteq> A" using A2 A1 tree_dict(3) by auto
          have F: "\<forall>b. b \<notin> A \<longrightarrow> h2 b = h b"
          proof (intro allI impI)
            fix b assume "b \<notin> A"
            with tree_dict(3) A1 have "b \<noteq> a" "b \<notin> A1" by auto
            with fr show "h2 b = h b" by simp
          qed
          have vn: "validate_node p t = Inr (VDict (PyDict d2))"
            using Inr pure by simp
          have vs: "validate_node_st v (store_template t) h = (Inr (VDict a), h2)"
            using st r by simp
          have "\<exists>h' A'. validate_node_st v (store_template t) h = (Inr v, h')
              \<and> tree h' v (VDict (PyDict d2)) A' \<and> A' \<subseteq> A \<and> (\<forall>b. b \<notin> A \<longrightarrow> h' b = h b)"
            using vs T S F by (intro exI [of _ h2] exI [of _ "insert a A2"]) simp
          then show ?thesis
            by (simp only: simulates_def vn sum.case)
        qed
      qed
    qed
  qed
qed


subsection \<open>The second run in the store\<close>

lemma type_matches_plain:
  assumes "type_matches v ty = Inr True"
  shows "plain v"
proof -
  have scalar: "plain e" if "type_name e \<in> set allowed_scalar_types" for e :: "'a val"
    using that by (cases e) (simp_all add: allowed_scalar_types_def)
  from assms have ty: "ty \<in> set allowed_types"
    by (auto simp: type_matches_def split: if_splits)
  show ?thesis
  proof (cases "list_element_type ty")
    case None
    with assms ty have "type_name v = ty" "ty \<in> set allowed_scalar_types"
      by (auto simp: type_matches_def allowed_types_eq allowed_scalar_types_def
          list_element_type_def is_word_char_def split: if_splits)
    then show ?thesis by (simp add: scalar)
  next
    case (Some t)
    with ty have t: "t \<in> set allowed_scalar_types"
      by (auto simp: allowed_types_eq allowed_scalar_types_def list_element_type_def
          is_word_char_def)
    from assms Some ty obtain xs where "v = VList xs" "list_all (\<lambda>e. type_name e = t) xs"
      by (cases v) (auto simp: type_matches_def)
    with t show ?thesis by (auto simp: list_all_iff intro: scalar)
  qed
qed

lemma well_typed_defaults_plain: "defaults_well_typed t \<Longrightarrow> plain_defaults t"
proof (induction t rule: measure_induct_rule [where f = size])
  case (less t)
  obtain n kws secs where t: "t = TNode n kws secs" by (cases t)
  have "plain_defaults x" if "x \<in> set (the_list secs)" for x
  proof -
    from that t have "size x < size t"
      by (auto simp: the_list_def split: option.splits
          dest!: size_list_estimation' [where f = size and y = "size x"])
    moreover from that less.prems t have "defaults_well_typed x"
      by (auto simp: the_list_def list_all_iff split: option.splits)
    ultimately show ?thesis by (rule less.IH)
  qed
  moreover have "case kw_default x of None \<Rightarrow> True | Some v \<Rightarrow> plain v"
    if "x \<in> set (the_list kws)" for x
    using that less.prems t
    by (auto simp: list_all_iff default_matches_def split: option.splits
        dest: type_matches_plain)
  ultimately show ?case
    using t by (auto simp: list_all_iff the_list_def split: option.splits)
qed

text \<open>
  With defaults of the declared types, and a store that holds the input tree: when
  \<open>validate_node\<close> returns, the store holds the merged tree \<open>m\<close>, and a second run
  on that store returns with the store holding \<open>m\<close> again.
\<close>

lemma store_second_run:
  assumes "defaults_well_typed t" and "tree h v p A"
      and "validate_node_st v (store_template t) h = (Inr r, h')"
  shows "\<exists>m A' h'' A''. validate_node p t = Inr m \<and> tree h' v m A'
           \<and> validate_node_st v (store_template t) h' = (Inr v, h'') \<and> tree h'' v m A''"
proof -
  have pd: "plain_defaults t" using assms(1) by (rule well_typed_defaults_plain)
  from store_model_simulates [OF pd assms(2)] assms(3)
  obtain m A' where m: "validate_node p t = Inr m" and t1: "tree h' v m A'"
    by (cases "validate_node p t") (auto simp: simulates_def)
  from merged_tree_is_fixed [OF assms(1) m] have fx: "validate_node m t = Inr m" .
  from store_model_simulates [OF pd t1] fx obtain h'' A'' where
    "validate_node_st v (store_template t) h' = (Inr v, h'')" "tree h'' v m A''"
    by (auto simp: simulates_def)
  with m t1 show ?thesis by blast
qed

section \<open>The input tree is modified in place\<close>

lemma returned_object_and_keys:
  assumes "validate_node_st input_dict template_dict h = (Inr r, h')"
  shows "r = input_dict
       \<and> (\<exists>a. input_dict = VDict a
              \<and> (\<forall>x \<in> set (the_list (t_keywords template_dict)).
                    \<exists>k. kw_keyword x = Some k \<and> k \<in> fst ` set (h' a)))
       \<and> (\<forall>b. fst ` set (h b) \<subseteq> fst ` set (h' b))"
proof -
  from assms obtain a where a: "input_dict = VDict a"
    by (cases input_dict) (simp_all add: validate_node_st.simps)
  from assms a obtain ik tk ts where cd: "check_dict (h a) template_dict = Inr (ik, tk, ts)"
    by (cases "check_dict (h a) template_dict") (auto simp: validate_node_st.simps)
  obtain u d1 where fd: "fill_defaults (the_list (t_keywords template_dict))
      (missing_keywords tk ik) (h a) = (u, d1)" by force
  from assms a cd fd have u: "u = Inr ()"
    by (cases u) (simp_all add: validate_node_st.simps)
  from assms a cd fd u have vs: "validate_sections_st a (the_list (t_sections template_dict)) ts
      (h(a := d1)) = (Inr (), h')" and r: "r = input_dict"
    by (auto simp: validate_node_st.simps split: prod.splits sum.splits)
  from cd obtain kws where tl: "template_lists template_dict = Inr (ts, tk, kws)"
    and ik: "ik = input_keywords_of (h a)"
    by (rule check_dict_Inr)
  have kws: "the_list (t_keywords template_dict) = kws"
    using template_lists_Inr(1) [OF tl] by (simp add: the_list_def)
  have tk: "map kw_keyword kws = map Some tk"
    using template_lists_Inr(2) [OF tl] by (auto simp: subscripts_eq list_all_iff split: if_splits)
  have d1h: "fst ` set d1 \<subseteq> fst ` set (h' a)"
    using validate_st_keys(2) [of "h(a := d1)" a a "the_list (t_sections template_dict)" ts] vs
    by simp
  have "set tk \<subseteq> fst ` set d1"
  proof
    fix k assume k: "k \<in> set tk"
    show "k \<in> fst ` set d1"
    proof (cases "k \<in> set ik")
      case True
      then have "k \<in> fst ` set (h a)" using ik input_keywords_are_keys by blast
      then show ?thesis
        using fill_defaults_keys [of "h a" "the_list (t_keywords template_dict)"
            "missing_keywords tk ik"] fd by auto
    next
      case False
      with k have "k \<in> set (missing_keywords tk ik)" by (simp add: missing_keywords_def)
      then show ?thesis
        using fill_defaults_filled [of "the_list (t_keywords template_dict)"
            "missing_keywords tk ik" "h a"] fd u by auto
    qed
  qed
  with d1h have all: "set tk \<subseteq> fst ` set (h' a)" by blast
  have "\<exists>k. kw_keyword x = Some k \<and> k \<in> fst ` set (h' a)" if "x \<in> set kws" for x
  proof -
    from that tk have "kw_keyword x \<in> Some ` set tk"
      by (metis image_eqI list.set_map)
    with all show ?thesis by auto
  qed
  moreover have "fst ` set (h b) \<subseteq> fst ` set (h' b)" for b
    using validate_st_keys(1) [of h b input_dict template_dict] assms by simp
  ultimately show ?thesis using r a kws by simp
qed


text \<open>
  C2 (amended).  \<open>validate_node\<close> does not leave the input tree as it was and does
  not build a new tree: it assigns into \<open>input_dict\<close> and returns it.  In the store
  model, when the call returns: the value returned is the very dictionary object that
  was passed in; that object holds a key for every keyword of the template node; no
  dictionary of the store has lost a key; and when the store holds the input as a
  tree of distinct dictionary objects and no default of the template contains a
  dictionary, the store afterwards holds the merged tree under the same object, in
  dictionary objects that were part of the input tree, and every other object is as
  it was.
\<close>

theorem validate_node_returns_its_argument:
  assumes "validate_node_st input_dict template_dict h = (Inr r, h')"
  shows "r = input_dict
       \<and> (\<exists>a. input_dict = VDict a
              \<and> (\<forall>x \<in> set (the_list (t_keywords template_dict)).
                    \<exists>k. kw_keyword x = Some k \<and> k \<in> fst ` set (h' a)))
       \<and> (\<forall>b. fst ` set (h b) \<subseteq> fst ` set (h' b))
       \<and> (\<forall>t p A. template_dict = store_template t \<and> plain_defaults t \<and> tree h input_dict p A \<longrightarrow>
              (\<exists>m A'. validate_node p t = Inr m \<and> tree h' input_dict m A' \<and> A' \<subseteq> A
                 \<and> (\<forall>b. b \<notin> A \<longrightarrow> h' b = h b)))"
proof -
  have "\<exists>m A'. validate_node p t = Inr m \<and> tree h' input_dict m A' \<and> A' \<subseteq> A
          \<and> (\<forall>b. b \<notin> A \<longrightarrow> h' b = h b)"
    if "template_dict = store_template t" "plain_defaults t" "tree h input_dict p A" for t p A
  proof -
    from store_model_simulates [OF that(2,3)] have sim: "simulates h input_dict p A t" .
    show ?thesis
    proof (cases "validate_node p t")
      case (Inl e)
      with sim assms that(1) show ?thesis by (simp add: simulates_def)
    next
      case (Inr m)
      with sim assms that(1) show ?thesis by (auto simp: simulates_def)
    qed
  qed
  with returned_object_and_keys [OF assms] show ?thesis by blast
qed

text \<open>
  C2 as stated fails: the input \<open>{'s': {}}\<close>, with the outer dictionary at address 0
  and the inner one at address 1, is returned as the same object 0, and after the
  call both objects hold the defaults of the template.
\<close>

theorem validate_node_returns_its_argument_counterexample:
  "validate_node_st (VDict 0)
     (TNode None (Some [KwSpec (Some ''a'') (Some ''int'') (Some (VInt 1)) (Some ''doc'') None])
        (Some [TNode (Some ''s'')
                 (Some [KwSpec (Some ''b'') (Some ''str'') (Some (VStr ''x'')) (Some ''doc'') None])
                 None]))
     (empty_store(0 := [(''s'', VDict 1)]))
   = (Inr (VDict 0),
      empty_store(0 := [(''s'', VDict 1), (''a'', VInt 1)], 1 := [(''b'', VStr ''x'')]))
   \<and> (empty_store(0 := [(''s'', VDict 1)])) 0 \<noteq> [(''s'', VDict 1), (''a'', VInt 1)]
   \<and> (empty_store(0 := [(''s'', VDict 1)])) 1 \<noteq> [(''b'', VStr ''x'')]"
  by (simp add: validate_node_st.simps eval_defs empty_store_def fun_upd_twist)


theorem validate_node_returns_its_argument_witness:
  "validate_node_st (VDict 0)
     (store_template
        (TNode None (Some [KwSpec (Some ''a'') (Some ''int'') (Some (VInt 1)) (Some ''doc'') None])
           None))
     empty_store
   = (Inr (VDict 0), empty_store(0 := [(''a'', VInt 1)]))
   \<and> ''a'' \<in> fst ` set ((empty_store(0 := [(''a'', VInt 1)])) 0)
   \<and> empty_store 0 = []
   \<and> tree empty_store (VDict 0) (VDict (PyDict [])) {0}
   \<and> validate_node (VDict (PyDict []))
        (TNode None (Some [KwSpec (Some ''a'') (Some ''int'') (Some (VInt 1)) (Some ''doc'') None])
           None)
      = Inr (VDict (PyDict [(''a'', VInt 1)]))
   \<and> (\<exists>A'. tree (empty_store(0 := [(''a'', VInt 1)])) (VDict 0)
               (VDict (PyDict [(''a'', VInt 1)])) A' \<and> A' \<subseteq> {0})"
proof -
  let ?t = "TNode None (Some [KwSpec (Some ''a'') (Some ''int'') (Some (VInt 1)) (Some ''doc'') None])
              None :: pydict tnode"
  have run: "validate_node_st (VDict 0) (store_template ?t) empty_store
      = (Inr (VDict 0), empty_store(0 := [(''a'', VInt 1)]))"
    by (simp add: validate_node_st.simps eval_defs empty_store_def store_template_def)
  have pd: "plain_defaults ?t"
    by (simp add: the_list_def)
  have "entries empty_store (empty_store 0) [] {}"
    by (simp add: empty_store_def tree_entries.intros(3))
  then have "tree empty_store (VDict 0) (VDict (PyDict [])) (insert 0 {})"
    by (rule tree_entries.intros(2)) simp
  then have tr: "tree empty_store (VDict 0) (VDict (PyDict [])) {0}" by simp
  have pure: "validate_node (VDict (PyDict [])) ?t = Inr (VDict (PyDict [(''a'', VInt 1)]))"
    by (simp add: eval_defs)
  have "\<exists>m A'. validate_node (VDict (PyDict [])) ?t = Inr m
          \<and> tree (empty_store(0 := [(''a'', VInt 1)])) (VDict 0) m A' \<and> A' \<subseteq> {0}
          \<and> (\<forall>b. b \<notin> {0} \<longrightarrow> (empty_store(0 := [(''a'', VInt 1)])) b = empty_store b)"
    by (rule validate_node_returns_its_argument [OF run, THEN conjunct2, THEN conjunct2,
          THEN conjunct2, rule_format, of ?t "VDict (PyDict [])" "{0}"])
       (intro conjI refl pd tr)
  with pure have "\<exists>A'. tree (empty_store(0 := [(''a'', VInt 1)])) (VDict 0)
      (VDict (PyDict [(''a'', VInt 1)])) A' \<and> A' \<subseteq> {0}"
    by auto
  with run tr pure show ?thesis
    by (simp add: empty_store_def)
qed

end
